theory Spec2Isabelle
  imports Complex_Main
begin

text \<open>
  A shallow embedding of the class \<^verbatim>\<open>Fuse\<close> of \<^verbatim>\<open>src/index.js\<close>, the orchestration of a
  fuzzy search: \<^verbatim>\<open>search\<close>, \<^verbatim>\<open>_prepareSearchers\<close>, \<^verbatim>\<open>_search\<close>, \<^verbatim>\<open>_analyze\<close>,
  \<^verbatim>\<open>_computeScore\<close>, \<^verbatim>\<open>_sort\<close> and \<^verbatim>\<open>_format\<close>.  The matcher \<^verbatim>\<open>Bitap\<close>, the
  accessor \<^verbatim>\<open>deepValue\<close> behind the option \<^verbatim>\<open>getFn\<close> and the highlighter are other
  modules and enter as parameters.  Every \<^verbatim>\<open>throw\<close> and every read of a property of
  \<^verbatim>\<open>null\<close> or \<^verbatim>\<open>undefined\<close> in this file is a branch that returns an error.
\<close>

section \<open>JavaScript values\<close>

text \<open>
  The searcher of \<^verbatim>\<open>src/index.js\<close> works on untyped JavaScript values.  Numbers are
  idealised as reals, with \<open>NaN\<close> kept apart because the code produces it (\<^verbatim>\<open>0 / 0\<close>,
  \<^verbatim>\<open>undefined / 0\<close>) and then compares with it.  An object carries its properties as an
  association list in insertion order and an allocation mark: \<open>Some n\<close> for an object
  of the caller (the \<open>n\<close>-th object of the input), \<open>None\<close> for an object that the
  search itself allocates (an object literal or the \<^verbatim>\<open>{}\<close> target of
  \<^verbatim>\<open>Object.assign\<close>).
\<close>

datatype jsnum = Num real | NaN

datatype jsval =
    VUndef
  | VNull
  | VBool bool
  | VNum jsnum
  | VStr string
  | VArr "jsval list"
  | VObj "nat option" "(string \<times> jsval) list"

fun truthy :: "jsval \<Rightarrow> bool" where
  "truthy VUndef = False"
| "truthy VNull = False"
| "truthy (VBool b) = b"
| "truthy (VNum NaN) = False"
| "truthy (VNum (Num r)) = (r \<noteq> 0)"
| "truthy (VStr s) = (s \<noteq> [])"
| "truthy (VArr xs) = True"
| "truthy (VObj t ps) = True"

definition digit_char :: "nat \<Rightarrow> char" where
  "digit_char d = char_of (48 + d)"

fun string_of_nat :: "nat \<Rightarrow> string" where
  "string_of_nat n =
     (if n < 10 then [digit_char n] else string_of_nat (n div 10) @ [digit_char (n mod 10)])"

declare string_of_nat.simps [simp del]

definition indexed :: "jsval list \<Rightarrow> (string \<times> jsval) list" where
  "indexed xs = zip (map string_of_nat [0..<length xs]) xs"

text \<open>The own enumerable properties of a value, as \<^verbatim>\<open>Object.assign\<close> copies them.\<close>

fun own_props :: "jsval \<Rightarrow> (string \<times> jsval) list" where
  "own_props (VObj t ps) = ps"
| "own_props (VArr xs) = indexed xs"
| "own_props (VStr s) = indexed (map (\<lambda>c. VStr [c]) s)"
| "own_props v = []"

text \<open>
  Reading \<^verbatim>\<open>v[k]\<close> on a value other than \<^verbatim>\<open>null\<close> and \<^verbatim>\<open>undefined\<close> (those
  raise, see \<open>nullish\<close>).  Inherited properties are methods and are read as
  \<^verbatim>\<open>undefined\<close>; the code only tests the value read for being an array.
\<close>

fun get_prop :: "jsval \<Rightarrow> string \<Rightarrow> jsval" where
  "get_prop (VObj t ps) k = (case map_of ps k of Some v \<Rightarrow> v | None \<Rightarrow> VUndef)"
| "get_prop (VArr xs) k =
     (if k = ''length'' then VNum (Num (real (length xs)))
      else case map_of (indexed xs) k of Some v \<Rightarrow> v | None \<Rightarrow> VUndef)"
| "get_prop (VStr s) k =
     (if k = ''length'' then VNum (Num (real (length s)))
      else case map_of (indexed (map (\<lambda>c. VStr [c]) s)) k of Some v \<Rightarrow> v | None \<Rightarrow> VUndef)"
| "get_prop v k = VUndef"

definition nullish :: "jsval \<Rightarrow> bool" where
  "nullish v = (v = VUndef \<or> v = VNull)"

fun set_prop :: "(string \<times> jsval) list \<Rightarrow> string \<Rightarrow> jsval \<Rightarrow> (string \<times> jsval) list" where
  "set_prop [] k v = [(k, v)]"
| "set_prop ((k', v') # ps) k v = (if k' = k then (k, v) # ps else (k', v') # set_prop ps k v)"

text \<open>\<^verbatim>\<open>Object.assign({}, src, {[k]: v})\<close>: a new object with the properties of \<open>src\<close>
  and \<open>k\<close> set to \<open>v\<close>.\<close>

definition assign :: "jsval \<Rightarrow> string \<Rightarrow> jsval \<Rightarrow> jsval" where
  "assign src k v = VObj None (set_prop (own_props src) k v)"

section \<open>Data model of the searcher\<close>

text \<open>What \<^verbatim>\<open>Bitap.search\<close> returns: \<^verbatim>\<open>{ isMatch, score, matchedIndices }\<close>.\<close>

record match_outcome =
  isMatch :: bool
  mScore :: real
  mIndices :: "(nat \<times> nat) list"

type_synonym searcher = "string \<Rightarrow> match_outcome"

text \<open>An element of \<^verbatim>\<open>result.output\<close>: \<^verbatim>\<open>{ key, score, matchedIndices }\<close>, and
  \<^verbatim>\<open>nScore\<close> once \<^verbatim>\<open>_computeScore\<close> has set it.\<close>

record entry =
  key :: string
  eScore :: real
  matchedIndices :: "(nat \<times> nat) list"
  nScore :: "real option"

text \<open>An element of \<^verbatim>\<open>results\<close>: \<^verbatim>\<open>{ item, output }\<close>, and \<^verbatim>\<open>score\<close> once
  \<^verbatim>\<open>_computeScore\<close> has set it.\<close>

record result =
  item :: jsval
  outputs :: "entry list"
  score :: "jsnum option"

text \<open>
  \<^verbatim>\<open>resultMap\<close> and \<^verbatim>\<open>results\<close> hold the same objects: every object stored in
  \<^verbatim>\<open>resultMap[index]\<close> is pushed on \<^verbatim>\<open>results\<close> in the same statement group, and
  replaced in both together.  They are modelled as one list of pairs of the index and
  the result, in push order; \<^verbatim>\<open>resultMap[index]\<close> is the lookup \<open>map_of results index\<close>.
\<close>

type_synonym results = "(nat \<times> result) list"

text \<open>An element of \<^verbatim>\<open>options.keys\<close>: a string, or \<^verbatim>\<open>{ name, weight }\<close> where the
  weight may be absent.\<close>

datatype skey = KStr string | KObj string "real option"

text \<open>The errors: the \<^verbatim>\<open>throw\<close> of \<^verbatim>\<open>_search\<close>, a read of a property of
  \<^verbatim>\<open>null\<close> or \<^verbatim>\<open>undefined\<close>, and whatever the accessor \<^verbatim>\<open>getFn\<close> throws.\<close>

datatype error = InvalidWeight | TypeError | AccessorError

text \<open>
  The options the orchestration reads.  The option \<^verbatim>\<open>verbose\<close> and the calls of
  \<^verbatim>\<open>_log\<close> only print and are left out.  \<open>Bitap\<close> stands for \<^verbatim>\<open>new Bitap(pattern,
  options).search\<close> and \<open>highlighter\<close> for \<^verbatim>\<open>helpers/highlighter\<close>, both outside
  \<^verbatim>\<open>src/index.js\<close>; the options that only \<open>Bitap\<close> reads (location, distance,
  threshold, ...) are part of it.  \<open>tokenSeparator\<close> is \<^verbatim>\<open>s.split(tokenSeparator)\<close>.
  \<open>idKey\<close> is the option \<^verbatim>\<open>id\<close>, \<open>None\<close> for \<^verbatim>\<open>null\<close>.  \<open>getFn\<close> is the
  accessor, which returns a value or throws (\<open>None\<close>), as the default \<^verbatim>\<open>deepValue\<close>
  does on a record that is \<^verbatim>\<open>null\<close>.
\<close>

record options =
  Bitap :: "string \<Rightarrow> searcher"
  tokenSeparator :: "string \<Rightarrow> string list"
  idKey :: "string option"
  keys :: "skey list"
  shouldSort :: bool
  getFn :: "jsval \<Rightarrow> string \<Rightarrow> jsval option"
  sortFn :: "result \<Rightarrow> result \<Rightarrow> jsnum"
  tokenize :: bool
  matchAllTokens :: bool
  includeMatches :: bool
  includeScore :: bool
  recursive_enabled :: bool
  recursive_key :: string
  highlight_enabled :: bool
  highlighter :: "jsval \<Rightarrow> jsval"

section \<open>\<^verbatim>\<open>_analyze\<close>\<close>

text \<open>The inner loop over the words of the text, for one token searcher.  The state
  is \<^verbatim>\<open>(exists, hasMatchInText, scores)\<close>.\<close>

fun word_loop ::
  "options \<Rightarrow> searcher \<Rightarrow> string list \<Rightarrow> bool \<times> bool \<times> real list \<Rightarrow> bool \<times> bool \<times> real list"
where
  "word_loop opts ts [] st = st"
| "word_loop opts ts (word # words) (ex, hasMatchInText, scores) =
     (let tokenSearchResult = ts word in
      if isMatch tokenSearchResult
      then word_loop opts ts words (True, True, scores @ [mScore tokenSearchResult])
      else word_loop opts ts words
             (ex, hasMatchInText, if \<not> matchAllTokens opts then scores @ [1] else scores))"

text \<open>The outer loop over the token searchers.  The state is
  \<^verbatim>\<open>(exists, numTextMatches, scores)\<close>.\<close>

fun token_loop ::
  "options \<Rightarrow> searcher list \<Rightarrow> string list \<Rightarrow> bool \<times> nat \<times> real list \<Rightarrow> bool \<times> nat \<times> real list"
where
  "token_loop opts [] words st = st"
| "token_loop opts (ts # tss) words (ex, numTextMatches, scores) =
     (case word_loop opts ts words (ex, False, scores) of
        (ex', hasMatchInText, scores') \<Rightarrow>
          token_loop opts tss words
            (ex', if hasMatchInText then numTextMatches + 1 else numTextMatches, scores'))"

text \<open>\<^verbatim>\<open>averageScore = scores[0]; for (i = 1 ..) averageScore += scores[i];
  averageScore / scoresLen\<close>.  On no scores this is \<^verbatim>\<open>undefined / 0\<close>.\<close>

definition average :: "real list \<Rightarrow> jsnum" where
  "average scores =
     (case scores of
        [] \<Rightarrow> NaN
      | s # rest \<Rightarrow> Num (foldl (+) s rest / real (length scores)))"

text \<open>\<^verbatim>\<open>averageScore > -1\<close>, false on \<open>NaN\<close>.\<close>

fun above_minus_one :: "jsnum \<Rightarrow> bool" where
  "above_minus_one (Num a) = (a > - 1)"
| "above_minus_one NaN = False"

fun the_num :: "jsnum \<Rightarrow> real" where
  "the_num (Num a) = a"
| "the_num NaN = 0"

text \<open>The token part of \<^verbatim>\<open>_analyze\<close>: \<^verbatim>\<open>(exists, numTextMatches, averageScore)\<close>
  after the \<^verbatim>\<open>if (this.options.tokenize)\<close> block.\<close>

definition token_part :: "options \<Rightarrow> searcher list \<Rightarrow> string \<Rightarrow> bool \<times> nat \<times> jsnum" where
  "token_part opts tokenSearchers text =
     (if tokenize opts
      then (case token_loop opts tokenSearchers (tokenSeparator opts text) (False, 0, []) of
              (ex, numTextMatches, scores) \<Rightarrow> (ex, numTextMatches, average scores))
      else (False, 0, Num (- 1)))"

definition finalScore :: "real \<Rightarrow> jsnum \<Rightarrow> real" where
  "finalScore mainScore averageScore =
     (if above_minus_one averageScore then (mainScore + the_num averageScore) / 2
      else mainScore)"

definition checkTextMatches :: "options \<Rightarrow> searcher list \<Rightarrow> nat \<Rightarrow> bool" where
  "checkTextMatches opts tokenSearchers numTextMatches =
     (if tokenize opts \<and> matchAllTokens opts
      then numTextMatches \<ge> length tokenSearchers else True)"

text \<open>\<^verbatim>\<open>existingResult.output.push(e)\<close> on the entry of \<open>index\<close>.\<close>

fun push_output :: "nat \<Rightarrow> entry \<Rightarrow> results \<Rightarrow> results" where
  "push_output index e [] = []"
| "push_output index e ((i, r) # rs) =
     (if i = index then (i, r\<lparr>outputs := outputs r @ [e]\<rparr>) # rs
      else (i, r) # push_output index e rs)"

definition add_match :: "nat \<Rightarrow> jsval \<Rightarrow> entry \<Rightarrow> results \<Rightarrow> results" where
  "add_match index record e rs =
     (case map_of rs index of
        Some existingResult \<Rightarrow> push_output index e rs
      | None \<Rightarrow> rs @ [(index, \<lparr>item = record, outputs = [e], score = None\<rparr>)])"

text \<open>The branch \<^verbatim>\<open>typeof value === 'string'\<close> of \<^verbatim>\<open>_analyze\<close>.\<close>

definition analyze_text ::
  "options \<Rightarrow> searcher list \<Rightarrow> searcher \<Rightarrow> string \<Rightarrow> jsval \<Rightarrow> nat \<Rightarrow> string \<Rightarrow> results \<Rightarrow> results"
where
  "analyze_text opts tokenSearchers fullSearcher k record index text rs =
     (let mainSearchResult = fullSearcher text in
      case token_part opts tokenSearchers text of
        (ex, numTextMatches, averageScore) \<Rightarrow>
          if (ex \<or> isMatch mainSearchResult)
             \<and> checkTextMatches opts tokenSearchers numTextMatches
          then add_match index record
                 \<lparr>key = k, eScore = finalScore (mScore mainSearchResult) averageScore,
                  matchedIndices = mIndices mainSearchResult, nScore = None\<rparr> rs
          else rs)"

text \<open>\<^verbatim>\<open>_analyze\<close>: nothing on \<^verbatim>\<open>undefined\<close> and \<^verbatim>\<open>null\<close>, the text branch on a
  string, each element in turn on an array, nothing on any other value.\<close>

fun analyze ::
  "options \<Rightarrow> searcher list \<Rightarrow> searcher \<Rightarrow> string \<Rightarrow> jsval \<Rightarrow> nat \<Rightarrow> jsval \<Rightarrow> results \<Rightarrow> results"
where
  "analyze opts tss fs k record index (VStr text) rs =
     analyze_text opts tss fs k record index text rs"
| "analyze opts tss fs k record index (VArr vs) rs =
     fold (\<lambda>v. analyze opts tss fs k record index v) vs rs"
| "analyze opts tss fs k record index v rs = rs"

section \<open>\<^verbatim>\<open>_computeScore\<close>\<close>

type_synonym weights = "string \<rightharpoonup> real"

text \<open>\<^verbatim>\<open>weights ? weights[output[j].key].weight : 1\<close>.  Reading \<^verbatim>\<open>.weight\<close> of a
  missing entry raises.\<close>

definition weight_of :: "weights option \<Rightarrow> string \<Rightarrow> error + real" where
  "weight_of weights k =
     (case weights of
        None \<Rightarrow> Inr 1
      | Some W \<Rightarrow> (case W k of None \<Rightarrow> Inl TypeError | Some w \<Rightarrow> Inr w))"

text \<open>The loop over \<^verbatim>\<open>output\<close>.  The state is \<^verbatim>\<open>(totalScore, bestScore)\<close> and the
  entries already visited, with \<^verbatim>\<open>nScore\<close> set where the weight is 1.\<close>

fun score_loop ::
  "weights option \<Rightarrow> entry list \<Rightarrow> real \<times> real \<times> entry list \<Rightarrow> error + real \<times> real \<times> entry list"
where
  "score_loop weights [] st = Inr st"
| "score_loop weights (e # es) (totalScore, bestScore, visited) =
     (case weight_of weights (key e) of
        Inl err \<Rightarrow> Inl err
      | Inr weight \<Rightarrow>
          (let n = eScore e * weight in
           if weight \<noteq> 1
           then score_loop weights es (totalScore, min bestScore n, visited @ [e])
           else score_loop weights es
                  (totalScore + n, bestScore, visited @ [e\<lparr>nScore := Some n\<rparr>])))"

text \<open>\<^verbatim>\<open>totalScore / scoreLen\<close>; with no entry this is \<^verbatim>\<open>0 / 0\<close>.\<close>

definition mean_score :: "real \<Rightarrow> nat \<Rightarrow> jsnum" where
  "mean_score totalScore scoreLen =
     (if scoreLen = 0 then NaN else Num (totalScore / real scoreLen))"

definition score_result :: "weights option \<Rightarrow> result \<Rightarrow> error + result" where
  "score_result weights r =
     (case score_loop weights (outputs r) (0, 1, []) of
        Inl err \<Rightarrow> Inl err
      | Inr (totalScore, bestScore, visited) \<Rightarrow>
          Inr (r\<lparr>outputs := visited,
                 score := Some (if bestScore = 1
                                then mean_score totalScore (length (outputs r))
                                else Num bestScore)\<rparr>))"

fun computeScore :: "weights option \<Rightarrow> result list \<Rightarrow> error + result list" where
  "computeScore weights [] = Inr []"
| "computeScore weights (r # rs) =
     (case score_result weights r of
        Inl err \<Rightarrow> Inl err
      | Inr r' \<Rightarrow>
          (case computeScore weights rs of
             Inl err \<Rightarrow> Inl err
           | Inr rs' \<Rightarrow> Inr (r' # rs')))"

section \<open>\<^verbatim>\<open>_sort\<close>\<close>

text \<open>
  \<^verbatim>\<open>results.sort(sortFn)\<close> is the host's \<^verbatim>\<open>Array.prototype.sort\<close>: stable, an
  element \<open>a\<close> stays before \<open>b\<close> unless the comparator is positive, and a \<open>NaN\<close>
  from the comparator counts as 0.  It is modelled by a stable insertion sort; on a
  comparator that is a total preorder every stable sort returns the same list, and this
  is where the model is the host's sort.  On a comparator that is none (one that
  returns \<open>NaN\<close> on some pairs) the order is the host's own choice, and \<open>js_sort\<close> is
  one such choice, not that of every host.
\<close>

fun not_after :: "jsnum \<Rightarrow> bool" where
  "not_after (Num v) = (v \<le> 0)"
| "not_after NaN = True"

fun insert_by :: "('a \<Rightarrow> 'a \<Rightarrow> jsnum) \<Rightarrow> 'a \<Rightarrow> 'a list \<Rightarrow> 'a list" where
  "insert_by cmp x [] = [x]"
| "insert_by cmp x (y # ys) =
     (if not_after (cmp x y) then x # y # ys else y # insert_by cmp x ys)"

fun js_sort :: "('a \<Rightarrow> 'a \<Rightarrow> jsnum) \<Rightarrow> 'a list \<Rightarrow> 'a list" where
  "js_sort cmp [] = []"
| "js_sort cmp (x # xs) = insert_by cmp x (js_sort cmp xs)"

fun js_sub :: "jsnum \<Rightarrow> jsnum \<Rightarrow> jsnum" where
  "js_sub (Num a) (Num b) = Num (a - b)"
| "js_sub a b = NaN"

text \<open>\<^verbatim>\<open>result.score\<close> read as a number; \<^verbatim>\<open>undefined\<close> converts to \<open>NaN\<close>.\<close>

definition score_num :: "result \<Rightarrow> jsnum" where
  "score_num r = (case score r of None \<Rightarrow> NaN | Some n \<Rightarrow> n)"

text \<open>The default \<^verbatim>\<open>sortFn = (a, b) => (a.score - b.score)\<close>.\<close>

definition default_sortFn :: "result \<Rightarrow> result \<Rightarrow> jsnum" where
  "default_sortFn a b = js_sub (score_num a) (score_num b)"

section \<open>\<^verbatim>\<open>_format\<close>\<close>

definition enc_indices :: "(nat \<times> nat) list \<Rightarrow> jsval" where
  "enc_indices xs = VArr (map (\<lambda>(a, b). VArr [VNum (Num (real a)), VNum (Num (real b))]) xs)"

text \<open>The object pushed on \<^verbatim>\<open>data.matches\<close> for one entry.\<close>

definition match_obj :: "entry \<Rightarrow> jsval" where
  "match_obj e =
     VObj None ((''indices'', enc_indices (matchedIndices e))
                # (if key e \<noteq> [] then [(''key'', VStr (key e))] else []))"

text \<open>\<^verbatim>\<open>v[0]\<close>, which raises on \<^verbatim>\<open>null\<close> and \<^verbatim>\<open>undefined\<close>.\<close>

definition index0 :: "jsval \<Rightarrow> error + jsval" where
  "index0 v = (if nullish v then Inl TypeError else Inr (get_prop v ''0''))"

definition score_val :: "result \<Rightarrow> jsval" where
  "score_val r = (case score r of None \<Rightarrow> VUndef | Some n \<Rightarrow> VNum n)"

text \<open>\<^verbatim>\<open>if (this.options.id)\<close>: the identifier is set and not the empty string.\<close>

definition id_set :: "options \<Rightarrow> bool" where
  "id_set opts = (case idKey opts of None \<Rightarrow> False | Some s \<Rightarrow> s \<noteq> [])"

definition project_item :: "options \<Rightarrow> result \<Rightarrow> error + jsval" where
  "project_item opts r =
     (if id_set opts
      then (case getFn opts (item r) (the (idKey opts)) of
              None \<Rightarrow> Inl AccessorError
            | Some v \<Rightarrow> index0 v)
      else Inr (item r))"

text \<open>One round of the loop of \<^verbatim>\<open>_format\<close>: the element pushed on
  \<^verbatim>\<open>finalOutput\<close>.\<close>

definition format_one :: "options \<Rightarrow> result \<Rightarrow> error + jsval" where
  "format_one opts r =
     (case project_item opts r of
        Inl err \<Rightarrow> Inl err
      | Inr it \<Rightarrow>
          Inr (if \<not> includeMatches opts \<and> \<not> includeScore opts then it
               else VObj None
                      ([(''item'', it)]
                       @ (if includeMatches opts
                          then [(''matches'', VArr (map match_obj (outputs r)))] else [])
                       @ (if includeScore opts then [(''score'', score_val r)] else []))))"

fun format_loop :: "options \<Rightarrow> result list \<Rightarrow> error + jsval list" where
  "format_loop opts [] = Inr []"
| "format_loop opts (r # rs) =
     (case format_one opts r of
        Inl err \<Rightarrow> Inl err
      | Inr d \<Rightarrow>
          (case format_loop opts rs of
             Inl err \<Rightarrow> Inl err
           | Inr ds \<Rightarrow> Inr (d # ds)))"

definition format :: "options \<Rightarrow> result list \<Rightarrow> error + jsval" where
  "format opts rs =
     (case format_loop opts rs of
        Inl err \<Rightarrow> Inl err
      | Inr finalOutput \<Rightarrow>
          Inr (VArr (if includeMatches opts \<and> highlight_enabled opts
                     then map (highlighter opts) finalOutput else finalOutput)))"

section \<open>\<^verbatim>\<open>_search\<close>\<close>

text \<open>
  \<^verbatim>\<open>1 - x\<close> in the doubles of the host.  Results of arithmetic are idealised as the
  real results, except where the rounding decides a branch of the code: the difference
  is exactly 1 for every \<open>x\<close> from \<^verbatim>\<open>-2^-53\<close> to \<^verbatim>\<open>2^-54\<close> (round to nearest, ties to even),
  which \<^verbatim>\<open>weight !== 1\<close> in \<^verbatim>\<open>_computeScore\<close> then tells from any other weight.
\<close>

definition one_minus :: "real \<Rightarrow> real" where
  "one_minus x = (if - (1 / 2 ^ 53) \<le> x \<and> x \<le> 1 / 2 ^ 54 then 1 else 1 - x)"

text \<open>\<^verbatim>\<open>(1 - key.weight) || 1\<close>: an absent weight gives \<open>NaN\<close>, which is falsy, as
  is 0.\<close>

definition stored_weight :: "real option \<Rightarrow> real" where
  "stored_weight w =
     (case w of None \<Rightarrow> 1 | Some x \<Rightarrow> if one_minus x = 0 then 1 else one_minus x)"

text \<open>\<^verbatim>\<open>key.weight <= 0 || key.weight > 1\<close>, false when the weight is absent.\<close>

definition bad_weight :: "real option \<Rightarrow> bool" where
  "bad_weight w = (case w of None \<Rightarrow> False | Some x \<Rightarrow> x \<le> 0 \<or> x > 1)"

text \<open>The loop over \<^verbatim>\<open>this.options.keys\<close> for the record \<open>itm\<close> at position \<open>i\<close>.\<close>

fun key_loop ::
  "options \<Rightarrow> searcher list \<Rightarrow> searcher \<Rightarrow> jsval \<Rightarrow> nat \<Rightarrow> skey list \<Rightarrow> weights \<times> results
     \<Rightarrow> error + weights \<times> results"
where
  "key_loop opts tss fs itm i [] st = Inr st"
| "key_loop opts tss fs itm i (KObj name w # ks) (W, rs) =
     (if bad_weight w then Inl InvalidWeight
      else (case getFn opts itm name of
              None \<Rightarrow> Inl AccessorError
            | Some v \<Rightarrow>
                key_loop opts tss fs itm i ks
                  (W(name \<mapsto> stored_weight w), analyze opts tss fs name itm i v rs)))"
| "key_loop opts tss fs itm i (KStr name # ks) (W, rs) =
     (case getFn opts itm name of
        None \<Rightarrow> Inl AccessorError
      | Some v \<Rightarrow>
          key_loop opts tss fs itm i ks
            (W(name \<mapsto> 1), analyze opts tss fs name itm i v rs))"

text \<open>\<^verbatim>\<open>isArray(item[key]) && item[key].length > 0\<close>, with the array read.\<close>

definition child_list :: "jsval \<Rightarrow> string \<Rightarrow> jsval list option" where
  "child_list itm k =
     (case get_prop itm k of
        VArr cs \<Rightarrow> if length cs > 0 then Some cs else None
      | _ \<Rightarrow> None)"

text \<open>\<^verbatim>\<open>results[idx] = result\<close> with \<^verbatim>\<open>idx = results.indexOf(resultMap[i])\<close>.\<close>

fun replace_result :: "nat \<Rightarrow> result \<Rightarrow> results \<Rightarrow> results" where
  "replace_result i r' [] = []"
| "replace_result i r' ((j, r) # rs) =
     (if j = i then (j, r') # rs else (j, r) # replace_result i r' rs)"

text \<open>The statements after \<^verbatim>\<open>const children = this._search(...)\<close>.\<close>

definition splice :: "string \<Rightarrow> nat \<Rightarrow> jsval \<Rightarrow> jsval \<Rightarrow> results \<Rightarrow> results" where
  "splice k i itm children rs =
     (case map_of rs i of
        Some r \<Rightarrow> replace_result i (r\<lparr>item := assign (item r) k children\<rparr>) rs
      | None \<Rightarrow>
          if truthy (get_prop children ''length'')
          then rs @ [(i, \<lparr>item = assign itm k children, outputs = [], score = None\<rparr>)]
          else rs)"

text \<open>The loop of the branch \<^verbatim>\<open>typeof list[0] === 'string'\<close>.\<close>

fun flat_loop ::
  "options \<Rightarrow> searcher list \<Rightarrow> searcher \<Rightarrow> nat \<Rightarrow> jsval list \<Rightarrow> results \<Rightarrow> results"
where
  "flat_loop opts tss fs i [] rs = rs"
| "flat_loop opts tss fs i (v # vs) rs =
     flat_loop opts tss fs (i + 1) vs (analyze opts tss fs [] (VNum (Num (real i))) i v rs)"

definition enc_entry :: "entry \<Rightarrow> jsval" where
  "enc_entry e =
     VObj None ([(''key'', VStr (key e)), (''score'', VNum (Num (eScore e))),
                 (''matchedIndices'', enc_indices (matchedIndices e))]
                @ (case nScore e of None \<Rightarrow> [] | Some n \<Rightarrow> [(''nScore'', VNum (Num n))]))"

definition enc_result :: "result \<Rightarrow> jsval" where
  "enc_result r =
     VObj None ([(''item'', item r), (''output'', VArr (map enc_entry (outputs r)))]
                @ (case score r of None \<Rightarrow> [] | Some n \<Rightarrow> [(''score'', VNum n)]))"

text \<open>\<^verbatim>\<open>{ weights: null, results }\<close>.\<close>

definition raw_return :: "results \<Rightarrow> jsval" where
  "raw_return rs =
     VObj None [(''weights'', VNull), (''results'', VArr (map (\<lambda>(i, r). enc_result r) rs))]"

text \<open>\<^verbatim>\<open>typeof list[0] === 'string'\<close>; \<^verbatim>\<open>list[0]\<close> of an empty list is
  \<^verbatim>\<open>undefined\<close>.\<close>

fun first_is_string :: "jsval list \<Rightarrow> bool" where
  "first_is_string (VStr s # rest) = True"
| "first_is_string list = False"

text \<open>The end of \<^verbatim>\<open>_search\<close>: \<^verbatim>\<open>_computeScore\<close>, \<^verbatim>\<open>_sort\<close>, \<^verbatim>\<open>_format\<close>.\<close>

definition ranked :: "options \<Rightarrow> weights \<Rightarrow> results \<Rightarrow> error + result list" where
  "ranked opts W rs =
     (case computeScore (Some W) (map snd rs) of
        Inl err \<Rightarrow> Inl err
      | Inr scored \<Rightarrow> Inr (if shouldSort opts then js_sort (sortFn opts) scored else scored))"

definition finish :: "options \<Rightarrow> weights \<Rightarrow> results \<Rightarrow> error + jsval" where
  "finish opts W rs =
     (case ranked opts W rs of Inl err \<Rightarrow> Inl err | Inr ordered \<Rightarrow> format opts ordered)"

lemma map_of_size:
  assumes "map_of ps k = Some v"
  shows "size v < Suc (size_list (size_prod (\<lambda>_. 0) size) ps)"
  using assms by (induction ps) (auto split: if_splits)

lemma indexed_member:
  assumes "map_of (indexed xs) k = Some v"
  shows "v \<in> set xs"
  using assms by (auto simp: indexed_def dest!: map_of_SomeD set_zip_rightD)

lemma get_prop_size:
  assumes "get_prop itm k = VArr cs"
  shows "size_list size cs < size itm"
proof (cases itm)
  case (VObj t ps)
  with assms have "map_of ps k = Some (VArr cs)"
    by (auto split: option.splits)
  from map_of_size [OF this] VObj show ?thesis by simp
next
  case (VArr xs)
  with assms have "VArr cs \<in> set xs"
    by (auto split: option.splits if_splits dest: indexed_member)
  then have "size (VArr cs) \<le> size_list size xs"
    by (simp add: size_list_estimation')
  with VArr show ?thesis by simp
next
  case (VStr s)
  with assms show ?thesis
    by (auto split: option.splits if_splits dest!: indexed_member)
qed (use assms in auto)

lemma child_list_size:
  assumes "child_list itm k = Some cs"
  shows "size_list size cs < size itm"
  using assms get_prop_size [of itm k cs]
  by (auto simp: child_list_def split: jsval.splits if_splits)

text \<open>
  \<open>search_list\<close> is \<^verbatim>\<open>_search\<close>; \<open>search_loop\<close> is its loop over the records from
  position \<open>i\<close> on, with \<^verbatim>\<open>weights\<close> and the results as state.  The recursion into
  the children of a record is on a part of that record.
\<close>

function search_list ::
    "options \<Rightarrow> searcher list \<Rightarrow> searcher \<Rightarrow> jsval list \<Rightarrow> error + jsval"
  and search_loop ::
    "options \<Rightarrow> searcher list \<Rightarrow> searcher \<Rightarrow> nat \<Rightarrow> jsval list \<Rightarrow> weights \<times> results
       \<Rightarrow> error + weights \<times> results"
where
  "search_list opts tss fs list =
     (if first_is_string list then Inr (raw_return (flat_loop opts tss fs 0 list []))
      else (case search_loop opts tss fs 0 list (Map.empty, []) of
              Inl err \<Rightarrow> Inl err
            | Inr (W, rs) \<Rightarrow> finish opts W rs))"
| "search_loop opts tss fs i [] st = Inr st"
| "search_loop opts tss fs i (itm # rest) st =
     (case key_loop opts tss fs itm i (keys opts) st of
        Inl err \<Rightarrow> Inl err
      | Inr (W, rs) \<Rightarrow>
          if recursive_enabled opts
          then if nullish itm then Inl TypeError
               else (case child_list itm (recursive_key opts) of
                       None \<Rightarrow> search_loop opts tss fs (i + 1) rest (W, rs)
                     | Some cs \<Rightarrow>
                         (case search_list opts tss fs cs of
                            Inl err \<Rightarrow> Inl err
                          | Inr children \<Rightarrow>
                              search_loop opts tss fs (i + 1) rest
                                (W, splice (recursive_key opts) i itm children rs)))
          else search_loop opts tss fs (i + 1) rest (W, rs))"
  by pat_completeness auto
termination
  by (relation "measure (\<lambda>x. case x of
          Inl (opts, tss, fs, list) \<Rightarrow> 2 * size_list size list + 1
        | Inr (opts, tss, fs, i, list, st) \<Rightarrow> 2 * size_list size list)")
     (auto dest: child_list_size)

text \<open>\<^verbatim>\<open>_prepareSearchers\<close> and \<^verbatim>\<open>search\<close>.\<close>

definition prepareSearchers :: "options \<Rightarrow> string \<Rightarrow> searcher list \<times> searcher" where
  "prepareSearchers opts pattern =
     (if tokenize opts then map (Bitap opts) (tokenSeparator opts pattern) else [],
      Bitap opts pattern)"

definition search :: "options \<Rightarrow> jsval list \<Rightarrow> string \<Rightarrow> error + jsval" where
  "search opts list pattern =
     (case prepareSearchers opts pattern of
        (tokenSearchers, fullSearcher) \<Rightarrow> search_list opts tokenSearchers fullSearcher list)"

section \<open>Concrete collaborators\<close>

text \<open>
  Instances of the collaborators, for running the searcher on concrete inputs: a matcher
  given by a finite table from pattern and text to the score of a match (every other
  pair is no match, with score 1), the split at runs of spaces of the default
  \<^verbatim>\<open>tokenSeparator = / +/g\<close>, and the accessor \<^verbatim>\<open>(item, key) => item[key]\<close>, which
  throws on \<^verbatim>\<open>null\<close> and \<^verbatim>\<open>undefined\<close>.
\<close>

definition plain_getFn :: "jsval \<Rightarrow> string \<Rightarrow> jsval option" where
  "plain_getFn v k = (if nullish v then None else Some (get_prop v k))"

definition hit :: "real \<Rightarrow> match_outcome" where
  "hit s = \<lparr>isMatch = True, mScore = s, mIndices = []\<rparr>"

definition miss :: match_outcome where
  "miss = \<lparr>isMatch = False, mScore = 1, mIndices = []\<rparr>"

definition table_Bitap :: "((string \<times> string) \<times> real) list \<Rightarrow> string \<Rightarrow> searcher" where
  "table_Bitap tbl pattern text =
     (case map_of tbl (pattern, text) of Some s \<Rightarrow> hit s | None \<Rightarrow> miss)"

function split_from :: "string \<Rightarrow> string \<Rightarrow> string list" where
  "split_from cur [] = [cur]"
| "split_from cur (c # cs) =
     (if c = CHR '' '' then cur # split_from [] (dropWhile (\<lambda>d. d = CHR '' '') cs)
      else split_from (cur @ [c]) cs)"
  by pat_completeness auto
termination
  by (relation "measure (\<lambda>(cur, s). length s)")
     (auto simp: length_dropWhile_le less_Suc_eq_le)

definition split_spaces :: "string \<Rightarrow> string list" where
  "split_spaces s = split_from [] s"

definition demo_options :: "((string \<times> string) \<times> real) list \<Rightarrow> skey list \<Rightarrow> options" where
  "demo_options tbl ks =
     \<lparr>Bitap = table_Bitap tbl, tokenSeparator = split_spaces, idKey = None, keys = ks,
      shouldSort = True, getFn = plain_getFn, sortFn = default_sortFn, tokenize = False,
      matchAllTokens = False, includeMatches = False, includeScore = False,
      recursive_enabled = False, recursive_key = ''undefined'', highlight_enabled = False,
      highlighter = (\<lambda>v. v)\<rparr>"

section \<open>Notions used in the statements\<close>


text \<open>The name of a configured key, whether the loop over the keys throws on it, and
  the weight that the loop stores for it.\<close>

fun key_name :: "skey \<Rightarrow> string" where
  "key_name (KStr name) = name"
| "key_name (KObj name w) = name"

fun key_invalid :: "skey \<Rightarrow> bool" where
  "key_invalid (KStr name) = False"
| "key_invalid (KObj name w) = bad_weight w"

fun key_weight :: "skey \<Rightarrow> real" where
  "key_weight (KStr name) = 1"
| "key_weight (KObj name w) = stored_weight w"

text \<open>A query token hits a text when its searcher matches one of the words.\<close>

definition hits :: "searcher \<Rightarrow> string list \<Rightarrow> bool" where
  "hits ts words = list_ex (\<lambda>w. isMatch (ts w)) words"

text \<open>What the two loops of \<^verbatim>\<open>_analyze\<close> push on \<^verbatim>\<open>scores\<close>, in closed form: one
  score for every pair of a query token and a word, the score of the match or 1, the
  pairs without a match being left out under \<^verbatim>\<open>matchAllTokens\<close>.\<close>

definition word_scores :: "options \<Rightarrow> searcher \<Rightarrow> string list \<Rightarrow> real list" where
  "word_scores opts ts words =
     concat (map (\<lambda>w. if isMatch (ts w) then [mScore (ts w)]
                       else if matchAllTokens opts then [] else [1]) words)"

definition pair_scores :: "options \<Rightarrow> searcher list \<Rightarrow> string list \<Rightarrow> real list" where
  "pair_scores opts tss words = concat (map (\<lambda>ts. word_scores opts ts words) tss)"

definition mean :: "real list \<Rightarrow> real" where
  "mean xs = sum_list xs / real (length xs)"

text \<open>The score of the entry that \<^verbatim>\<open>_analyze\<close> pushes for a text, and whether it
  pushes one, in closed form.\<close>

definition field_score :: "options \<Rightarrow> searcher list \<Rightarrow> searcher \<Rightarrow> string \<Rightarrow> real" where
  "field_score opts tss fs text =
     (let ps = pair_scores opts tss (tokenSeparator opts text) in
      if tokenize opts \<and> ps \<noteq> [] \<and> - 1 < mean ps
      then (mScore (fs text) + mean ps) / 2 else mScore (fs text))"

definition contributes :: "options \<Rightarrow> searcher list \<Rightarrow> searcher \<Rightarrow> string \<Rightarrow> bool" where
  "contributes opts tss fs text =
     (let words = tokenSeparator opts text in
      ((tokenize opts \<and> list_ex (\<lambda>ts. hits ts words) tss) \<or> isMatch (fs text))
      \<and> (if tokenize opts \<and> matchAllTokens opts
         then list_all (\<lambda>ts. hits ts words) tss else True))"

text \<open>
  The token average as the specification words it, one contribution for each query
  token: the best score among its hits when it hits a word of the field, and 1 when it
  hits none (nothing under \<^verbatim>\<open>matchAllTokens\<close>).
\<close>

definition spec_token_contribution :: "options \<Rightarrow> searcher \<Rightarrow> string list \<Rightarrow> real list" where
  "spec_token_contribution opts ts words =
     (case filter isMatch (map ts words) of
        [] \<Rightarrow> if matchAllTokens opts then [] else [1]
      | r # rs \<Rightarrow> [foldl min (mScore r) (map mScore rs)])"

definition spec_token_average :: "options \<Rightarrow> searcher list \<Rightarrow> string list \<Rightarrow> jsnum" where
  "spec_token_average opts tss words =
     average (concat (map (\<lambda>ts. spec_token_contribution opts ts words) tss))"

text \<open>The example of the specification for \<^verbatim>\<open>matchAllTokens\<close>: the query
  \<^verbatim>\<open>"foo bar"\<close> against the field \<^verbatim>\<open>"foobar baz"\<close>, where the full text matches and of
  the tokens only \<^verbatim>\<open>"foo"\<close> does.\<close>

definition foo_table :: "((string \<times> string) \<times> real) list" where
  "foo_table = [((''foo'', ''foobar''), 3 / 10), ((''foo bar'', ''foobar baz''), 1 / 10)]"

definition foo_options :: options where
  "foo_options =
     demo_options foo_table [KStr ''title''] \<lparr>tokenize := True, matchAllTokens := True\<rparr>"

text \<open>A tokenized search for \<^verbatim>\<open>"a"\<close> in the field \<^verbatim>\<open>"a c"\<close>.\<close>

definition pair_options :: options where
  "pair_options =
     demo_options [((''a'', ''a''), 0), ((''a'', ''a c''), 0)] [KStr ''t'']
       \<lparr>tokenize := True, includeScore := True\<rparr>"

text \<open>The weight that remains stored for a name after the loop over the keys: that of
  the last configured key of this name; 1 for a name that no key has.\<close>

definition weight_for :: "skey list \<Rightarrow> string \<Rightarrow> real" where
  "weight_for ks name =
     (case find (\<lambda>k. key_name k = name) (rev ks) of
        Some k \<Rightarrow> key_weight k
      | None \<Rightarrow> 1)"

text \<open>The stored weight of a key in terms of the declared weight \<open>d\<close>: \<open>1 - d\<close>, and 1
  for a plain string, an absent weight, the weight 1, and a weight so small that
  \<open>1 - d\<close> is 1 in doubles.\<close>

fun stored_form :: "skey \<Rightarrow> real" where
  "stored_form (KStr name) = 1"
| "stored_form (KObj name None) = 1"
| "stored_form (KObj name (Some d)) = (if d = 1 \<or> d \<le> 1 / 2 ^ 54 then 1 else 1 - d)"

text \<open>
  The aggregate as the specification words it, on the scores of the fields with their
  declared weights: the minimum of score times weight over the fields of weight other
  than 1 when there is one, the mean of all scores otherwise.
\<close>

definition spec_aggregate :: "(real \<times> real) list \<Rightarrow> real" where
  "spec_aggregate sws =
     (let weighted = filter (\<lambda>(s, w). w \<noteq> 1) sws in
      if weighted = [] then mean (map fst sws)
      else Min (set (map (\<lambda>(s, w). s * w) weighted)))"

text \<open>The aggregate of \<^verbatim>\<open>_computeScore\<close> in closed form, on the entries of a record
  and the configured keys: the minimum of score times stored weight over the entries of
  stored weight other than 1 when there is one, the mean of all scores otherwise.\<close>

definition code_aggregate :: "skey list \<Rightarrow> entry list \<Rightarrow> real" where
  "code_aggregate ks es =
     (let weighted = filter (\<lambda>e. weight_for ks (key e) \<noteq> 1) es in
      if weighted = [] then mean (map eScore es)
      else Min (set (map (\<lambda>e. eScore e * weight_for ks (key e)) weighted)))"

text \<open>The \<^verbatim>\<open>weights\<close> after the loop over the keys.\<close>

definition weights_after :: "skey list \<Rightarrow> weights \<Rightarrow> weights" where
  "weights_after ks W = fold (\<lambda>k W. W(key_name k \<mapsto> key_weight k)) ks W"

text \<open>An entry after \<^verbatim>\<open>_computeScore\<close>, for the weight \<open>wt e\<close> of its key.\<close>

definition mark :: "(entry \<Rightarrow> real) \<Rightarrow> entry \<Rightarrow> entry" where
  "mark wt e = (if wt e = 1 then e\<lparr>nScore := Some (eScore e)\<rparr> else e)"

text \<open>A search with one key of declared weight \<^verbatim>\<open>1e-17\<close>, below \<^verbatim>\<open>2^-54\<close>.\<close>

definition tiny_options :: options where
  "tiny_options =
     demo_options [((''p'', ''y''), 1 / 2)] [KObj ''b'' (Some (1 / 10 ^ 17))]
       \<lparr>includeScore := True\<rparr>"

text \<open>A search with one key of declared weight 0.25.\<close>

definition quarter_options :: options where
  "quarter_options =
     demo_options [((''p'', ''y''), 4 / 5)] [KObj ''b'' (Some (1 / 4))]
       \<lparr>includeScore := True\<rparr>"

text \<open>The list \<^verbatim>\<open>results\<close> that \<^verbatim>\<open>_search\<close> hands to \<^verbatim>\<open>_format\<close> on a collection of
  records: after \<^verbatim>\<open>_computeScore\<close> and \<^verbatim>\<open>_sort\<close>.\<close>

definition rank_list ::
  "options \<Rightarrow> searcher list \<Rightarrow> searcher \<Rightarrow> jsval list \<Rightarrow> error + result list" where
  "rank_list opts tss fs list =
     (case search_loop opts tss fs 0 list (Map.empty, []) of
        Inl err \<Rightarrow> Inl err
      | Inr (W, rs) \<Rightarrow> ranked opts W rs)"

definition ranking :: "options \<Rightarrow> jsval list \<Rightarrow> string \<Rightarrow> error + result list" where
  "ranking opts list pattern =
     (case prepareSearchers opts pattern of
        (tokenSearchers, fullSearcher) \<Rightarrow> rank_list opts tokenSearchers fullSearcher list)"

text \<open>Ascending scores: both scores are numbers and the first is at most the second.\<close>

definition score_le :: "result \<Rightarrow> result \<Rightarrow> bool" where
  "score_le a b =
     (case (score a, score b) of
        (Some (Num x), Some (Num y)) \<Rightarrow> x \<le> y
      | _ \<Rightarrow> False)"

definition ascending :: "result list \<Rightarrow> bool" where
  "ascending rs = sorted_wrt score_le rs"

text \<open>A comparator is consistent on a list when, on its elements, ``not after'' is total
  and transitive.\<close>

definition consistent :: "('a \<Rightarrow> 'a \<Rightarrow> jsnum) \<Rightarrow> 'a list \<Rightarrow> bool" where
  "consistent cmp xs =
     list_all (\<lambda>a. list_all (\<lambda>b.
         (not_after (cmp a b) \<or> not_after (cmp b a))
         \<and> list_all (\<lambda>c. \<not> (not_after (cmp a b) \<and> not_after (cmp b c))
                         \<or> not_after (cmp a c)) xs)
       xs) xs"

text \<open>Every result has an entry.\<close>

definition all_matched :: "results \<Rightarrow> bool" where
  "all_matched rs = list_all (\<lambda>(i, r). outputs r \<noteq> []) rs"

text \<open>A recursive search in three records, the second of which matches only through
  its child.\<close>

definition nested_options :: options where
  "nested_options =
     demo_options [((''p'', ''x''), 1 / 5), ((''p'', ''y''), 0)] [KStr ''a'']
       \<lparr>includeScore := True, recursive_enabled := True, recursive_key := ''kids''\<rparr>"

definition nested_list :: "jsval list" where
  "nested_list =
     [VObj (Some 0) [(''a'', VStr ''x'')],
      VObj (Some 1) [(''a'', VStr ''zz''),
                     (''kids'', VArr [VObj (Some 2) [(''a'', VStr ''y'')]])],
      VObj (Some 3) [(''a'', VStr ''y'')]]"

text \<open>A search without recursion in three records with the scores 0.5, 0.2 and 0.3.\<close>

definition three_options :: options where
  "three_options =
     demo_options [((''p'', ''u''), 1 / 2), ((''p'', ''v''), 1 / 5), ((''p'', ''w''), 3 / 10)]
       [KStr ''a'']"

definition three_list :: "jsval list" where
  "three_list =
     [VObj (Some 0) [(''a'', VStr ''u'')], VObj (Some 1) [(''a'', VStr ''v'')],
      VObj (Some 2) [(''a'', VStr ''w'')]]"

text \<open>
  The objects of the caller that occur in a value, each with its properties: the value
  itself when it is such an object, and those in its properties or elements.
\<close>

fun input_objs :: "jsval \<Rightarrow> jsval set" where
  "input_objs (VObj t ps) =
     (case t of Some n \<Rightarrow> {VObj t ps} | None \<Rightarrow> {}) \<union> (\<Union>p\<in>set ps. input_objs (snd p))"
| "input_objs (VArr vs) = (\<Union>v\<in>set vs. input_objs v)"
| "input_objs v = {}"

definition props_objs :: "(string \<times> jsval) list \<Rightarrow> jsval set" where
  "props_objs ps = (\<Union>p\<in>set ps. input_objs (snd p))"

text \<open>
  The accessor \<^verbatim>\<open>getFn\<close> and the highlighter are code of the caller or of other
  modules.  They are taken to return the objects of the caller as they are: each
  object of the caller in what they return is one of their argument.
\<close>

definition collaborators_pure :: "options \<Rightarrow> bool" where
  "collaborators_pure opts =
     ((\<forall>v k x. getFn opts v k \<noteq> Some x \<or> input_objs x \<subseteq> input_objs v)
      \<and> (\<forall>v. input_objs (highlighter opts v) \<subseteq> input_objs v))"

text \<open>Every item of the results holds objects of the caller from \<open>S\<close> only.\<close>

definition items_within :: "jsval set \<Rightarrow> results \<Rightarrow> bool" where
  "items_within S rs = (\<forall>p\<in>set rs. input_objs (item (snd p)) \<subseteq> S)"

text \<open>Every result has an index below \<open>i\<close>.\<close>

definition below :: "nat \<Rightarrow> results \<Rightarrow> bool" where
  "below i rs = (\<forall>p\<in>set rs. fst p < i)"

text \<open>The result of index \<open>i\<close>, when there is one, has the item \<open>itm\<close>.\<close>

definition entry_of :: "jsval \<Rightarrow> nat \<Rightarrow> results \<Rightarrow> bool" where
  "entry_of itm i rs = (case map_of rs i of None \<Rightarrow> True | Some r \<Rightarrow> item r = itm)"

text \<open>A recursive search with the key \<^verbatim>\<open>a\<close> and the children under \<^verbatim>\<open>kids\<close>.\<close>

definition strings_options :: options where
  "strings_options =
     demo_options [((''p'', ''y''), 0)] [KStr ''a'']
       \<lparr>recursive_enabled := True, recursive_key := ''kids''\<rparr>"

text \<open>A recursive search in three records, the second of which does not match and has
  two children, one matching.\<close>

definition family_options :: options where
  "family_options =
     demo_options [((''p'', ''x''), 1 / 5), ((''p'', ''y''), 0)] [KStr ''a'']
       \<lparr>recursive_enabled := True, recursive_key := ''kids''\<rparr>"

definition family_list :: "jsval list" where
  "family_list =
     [VObj (Some 0) [(''a'', VStr ''x'')],
      VObj (Some 1) [(''a'', VStr ''zz''),
                     (''kids'', VArr [VObj (Some 2) [(''a'', VStr ''y'')],
                                      VObj (Some 3) [(''a'', VStr ''q'')]])],
      VObj (Some 4) [(''a'', VStr ''y'')]]"

section \<open>Properties of \<^verbatim>\<open>_analyze\<close>\<close>

subsection \<open>The loops in closed form\<close>

lemma word_loop_closed:
  "word_loop opts ts words (ex, h, sc)
     = (ex \<or> hits ts words, h \<or> hits ts words, sc @ word_scores opts ts words)"
  by (induction words arbitrary: ex h sc) (auto simp: hits_def word_scores_def Let_def)

lemma token_loop_closed:
  "token_loop opts tss words (ex, n, sc)
     = (ex \<or> list_ex (\<lambda>ts. hits ts words) tss,
        n + length (filter (\<lambda>ts. hits ts words) tss),
        sc @ pair_scores opts tss words)"
  by (induction tss arbitrary: ex n sc) (auto simp: word_loop_closed pair_scores_def)

lemma foldl_plus_sum: "foldl (+) (s::real) xs = s + sum_list xs"
  by (induction xs arbitrary: s) auto

lemma average_closed: "average ps = (if ps = [] then NaN else Num (mean ps))"
  by (cases ps) (auto simp: average_def mean_def foldl_plus_sum)

lemma token_part_closed:
  "token_part opts tss text =
     (if tokenize opts
      then (list_ex (\<lambda>ts. hits ts (tokenSeparator opts text)) tss,
            length (filter (\<lambda>ts. hits ts (tokenSeparator opts text)) tss),
            average (pair_scores opts tss (tokenSeparator opts text)))
      else (False, 0, Num (- 1)))"
  by (simp add: token_part_def token_loop_closed)

lemma filter_length_all: "(length xs \<le> length (filter P xs)) = list_all P xs"
proof (induction xs)
  case (Cons x xs)
  have le: "length (filter P xs) \<le> length xs" by simp
  show ?case
  proof (cases "P x")
    case True
    with Cons show ?thesis by simp
  next
    case False
    from le have "\<not> Suc (length xs) \<le> length (filter P xs)" by linarith
    with False show ?thesis by simp
  qed
qed simp

lemma analyze_text_closed:
  "analyze_text opts tss fs k record index text rs =
     (if contributes opts tss fs text
      then add_match index record
             \<lparr>key = k, eScore = field_score opts tss fs text,
              matchedIndices = mIndices (fs text), nScore = None\<rparr> rs
      else rs)"
  by (auto simp: analyze_text_def token_part_closed contributes_def field_score_def Let_def
        checkTextMatches_def finalScore_def average_closed filter_length_all)

lemma split_foo:
  "split_spaces ''foo bar'' = [''foo'', ''bar'']"
  "split_spaces ''foobar baz'' = [''foobar'', ''baz'']"
  by (simp_all add: split_spaces_def)


lemma key_loop_step:
  "key_loop opts tss fs itm i (k # ks) (W, rs) =
     (if key_invalid k then Inl InvalidWeight
      else case getFn opts itm (key_name k) of
             None \<Rightarrow> Inl AccessorError
           | Some v \<Rightarrow>
               key_loop opts tss fs itm i ks
                 (W(key_name k \<mapsto> key_weight k),
                  analyze opts tss fs (key_name k) itm i v rs))"
  by (cases k) (auto split: option.splits)

subsection \<open>The token average\<close>

text \<open>
  Claim C3, as the code has it.  The claim derives the token average for each query
  token.  The code averages over the pairs of a query token and a word of the field: in
  a tokenized search for \<^verbatim>\<open>"a"\<close> in the field \<^verbatim>\<open>"a c"\<close> the only query token hits the
  field with score 0, so that no query token is unmatched and the average of the claim
  is 0, and the code averages the scores 0 of the pair \<^verbatim>\<open>("a", "a")\<close> and 1 of the pair
  \<^verbatim>\<open>("a", "c")\<close> to 0.5, which gives the record the score 0.25.
\<close>

theorem token_average_counterexample:
  "hits (Bitap pair_options ''a'') (tokenSeparator pair_options ''a c'')
   \<and> spec_token_average pair_options
        (map (Bitap pair_options) (tokenSeparator pair_options ''a''))
        (tokenSeparator pair_options ''a c'') = Num 0
   \<and> snd (snd (token_part pair_options
                  (map (Bitap pair_options) (tokenSeparator pair_options ''a'')) ''a c''))
       = Num (1 / 2)
   \<and> search pair_options [VObj (Some 0) [(''t'', VStr ''a c'')]] ''a''
       = Inr (VArr [VObj None [(''item'', VObj (Some 0) [(''t'', VStr ''a c'')]),
                               (''score'', VNum (Num (1 / 4)))]])"
  by (simp add: pair_options_def demo_options_def split_spaces_def hits_def table_Bitap_def
        hit_def miss_def spec_token_average_def spec_token_contribution_def average_def
        token_part_def search_def prepareSearchers_def analyze_text_def Let_def
        finalScore_def checkTextMatches_def add_match_def finish_def ranked_def
        score_result_def weight_of_def mean_score_def default_sortFn_def
        format_def format_one_def project_item_def id_set_def score_val_def
        plain_getFn_def nullish_def)

text \<open>
  Claim C3, amended.  With \<^verbatim>\<open>tokenize\<close> the token average is the mean of one score for
  every pair of a query token and a word of the field, the score of the match when the
  pair matches and 1 when it does not, the pairs without a match being left out under
  \<^verbatim>\<open>matchAllTokens\<close>; with no such score it is \<open>NaN\<close>.  The score of the field is the
  mean of the full-text score and the token average when \<^verbatim>\<open>tokenize\<close> is set and the
  token average is a number above -1, and the full-text score alone otherwise.
\<close>

theorem token_average_over_pairs:
  "snd (snd (token_part opts tss text))
     = (if tokenize opts
        then (if pair_scores opts tss (tokenSeparator opts text) = [] then NaN
              else Num (mean (pair_scores opts tss (tokenSeparator opts text))))
        else Num (- 1))
   \<and> analyze_text opts tss fs k record index text rs
     = (if contributes opts tss fs text
        then add_match index record
               \<lparr>key = k, eScore = field_score opts tss fs text,
                matchedIndices = mIndices (fs text), nScore = None\<rparr> rs
        else rs)"
  by (simp add: token_part_closed average_closed analyze_text_closed)

subsection \<open>Every query token must match\<close>

text \<open>
  Claim C5.  With \<^verbatim>\<open>tokenize\<close> and \<^verbatim>\<open>matchAllTokens\<close>, a text of which some query token
  hits no word contributes nothing, whatever the full-text searcher \<open>fs\<close> returns on it.
\<close>

theorem all_tokens_required:
  assumes "tokenize opts" and "matchAllTokens opts"
    and "\<not> list_all (\<lambda>ts. hits ts (tokenSeparator opts text)) tss"
  shows "analyze opts tss fs k record index (VStr text) rs = rs"
  using assms by (simp add: analyze_text_closed contributes_def)

theorem all_tokens_required_witness:
  "isMatch (Bitap foo_options ''foo bar'' ''foobar baz'')
   \<and> hits (Bitap foo_options ''foo'') (tokenSeparator foo_options ''foobar baz'')
   \<and> \<not> hits (Bitap foo_options ''bar'') (tokenSeparator foo_options ''foobar baz'')
   \<and> analyze foo_options (map (Bitap foo_options) (tokenSeparator foo_options ''foo bar''))
        (Bitap foo_options ''foo bar'') ''title''
        (VObj (Some 0) [(''title'', VStr ''foobar baz'')]) 0 (VStr ''foobar baz'') [] = []"
proof -
  have h1: "tokenize foo_options" and h2: "matchAllTokens foo_options"
    by (simp_all add: foo_options_def demo_options_def)
  have h3: "\<not> list_all (\<lambda>ts. hits ts (tokenSeparator foo_options ''foobar baz''))
               (map (Bitap foo_options) (tokenSeparator foo_options ''foo bar''))"
    by (simp add: foo_options_def demo_options_def split_foo hits_def table_Bitap_def
          foo_table_def hit_def miss_def)
  have m: "isMatch (Bitap foo_options ''foo bar'' ''foobar baz'')"
    "hits (Bitap foo_options ''foo'') (tokenSeparator foo_options ''foobar baz'')"
    "\<not> hits (Bitap foo_options ''bar'') (tokenSeparator foo_options ''foobar baz'')"
    by (simp_all add: foo_options_def demo_options_def split_foo hits_def table_Bitap_def
          foo_table_def hit_def miss_def)
  from all_tokens_required [OF h1 h2 h3] m show ?thesis by simp
qed

subsection \<open>Fields without text\<close>



section \<open>The collection of strings\<close>

lemma flat_search_returns_raw_object:
  "search opts (VStr s # rest) pattern
     = Inr (VObj None
              [(''weights'', VNull),
               (''results'',
                VArr (map (\<lambda>(i, r). enc_result r)
                        (flat_loop opts (fst (prepareSearchers opts pattern))
                           (snd (prepareSearchers opts pattern)) 0 (VStr s # rest) [])))])"
  by (simp add: search_def raw_return_def split: prod.splits)

lemma flat_search_never_array: "search opts (VStr s # rest) pattern \<noteq> Inr (VArr vs)"
  by (simp add: search_def raw_return_def split: prod.splits)

text \<open>
  Claim C1, on the code.  On the collection \<^verbatim>\<open>["apple"]\<close> the search for
  \<^verbatim>\<open>"apple"\<close> returns the object \<^verbatim>\<open>{ weights: null, results }\<close> of the branch for
  strings, whose results carry no score and went through neither the sort nor the
  formatter, where the same search on the record \<^verbatim>\<open>{ t: "apple" }\<close> with the key
  \<^verbatim>\<open>t\<close> returns the formatted list.  By \<open>flat_search_returns_raw_object\<close> this is so for
  every collection whose first element is a string.
\<close>

theorem flat_search_example:
  "search (demo_options [((''apple'', ''apple''), 0)] []) [VStr ''apple''] ''apple''
     = Inr (VObj None
              [(''weights'', VNull),
               (''results'',
                VArr [VObj None
                        [(''item'', VNum (Num 0)),
                         (''output'',
                          VArr [VObj None [(''key'', VStr ''''), (''score'', VNum (Num 0)),
                                           (''matchedIndices'', VArr [])]])]])])
   \<and> search (demo_options [((''apple'', ''apple''), 0)] [KStr ''t''])
        [VObj (Some 0) [(''t'', VStr ''apple'')]] ''apple''
     = Inr (VArr [VObj (Some 0) [(''t'', VStr ''apple'')]])"
  by (simp add: search_def prepareSearchers_def raw_return_def demo_options_def
        table_Bitap_def hit_def analyze_text_def token_part_def finalScore_def
        checkTextMatches_def add_match_def enc_result_def enc_entry_def enc_indices_def
        finish_def ranked_def score_result_def weight_of_def mean_score_def
        format_def format_one_def project_item_def id_set_def plain_getFn_def nullish_def)

section \<open>Properties of \<^verbatim>\<open>_computeScore\<close>\<close>

lemma key_loop_weights:
  "key_loop opts tss fs itm i ks (W0, rs0) = Inr (W, rs)
     \<Longrightarrow> list_all (\<lambda>k. \<not> key_invalid k) ks \<and> W = weights_after ks W0"
proof (induction ks arbitrary: W0 rs0)
  case Nil
  then show ?case by (simp add: weights_after_def)
next
  case (Cons k ks)
  then show ?case
    by (auto simp: key_loop_step weights_after_def split: if_splits option.splits)
qed

lemma stored_weight_valid:
  assumes "\<not> key_invalid k"
  shows "key_weight k = stored_form k \<and> 0 < key_weight k \<and> key_weight k \<le> 1"
proof (cases k)
  case (KStr name)
  then show ?thesis by simp
next
  case (KObj name w)
  show ?thesis
  proof (cases w)
    case None
    with KObj show ?thesis by (simp add: stored_weight_def)
  next
    case (Some d)
    with KObj assms have d: "0 < d" "d \<le> 1" by (auto simp: bad_weight_def)
    have p: "(0::real) \<le> 1 / 2 ^ 53" by simp
    from d p have "- (1 / 2 ^ 53) \<le> d" by linarith
    with d KObj Some show ?thesis
      by (auto simp: stored_weight_def one_minus_def)
  qed
qed

lemma weights_after_lookup:
  assumes "name \<in> key_name ` set ks" and "list_all (\<lambda>k. \<not> key_invalid k) ks"
  shows "weights_after ks W0 name = Some (weight_for ks name)
         \<and> 0 < weight_for ks name \<and> weight_for ks name \<le> 1"
  using assms
proof (induction ks rule: rev_induct)
  case Nil
  then show ?case by simp
next
  case (snoc k ks)
  show ?case
  proof (cases "key_name k = name")
    case True
    from snoc.prems(2) have "\<not> key_invalid k" by simp
    from stored_weight_valid [OF this] True show ?thesis
      by (simp add: weights_after_def weight_for_def)
  next
    case False
    with snoc.prems have "name \<in> key_name ` set ks" "list_all (\<lambda>k. \<not> key_invalid k) ks"
      by auto
    from snoc.IH [OF this] False show ?thesis
      by (simp add: weights_after_def weight_for_def)
  qed
qed

lemma score_loop_closed:
  assumes "\<forall>e\<in>set es. W (key e) = Some (wt e)"
  shows "score_loop (Some W) es (t, b, vis)
           = Inr (t + sum_list (map eScore (filter (\<lambda>e. wt e = 1) es)),
                  foldl min b (map (\<lambda>e. eScore e * wt e) (filter (\<lambda>e. wt e \<noteq> 1) es)),
                  vis @ map (mark wt) es)"
  using assms
  by (induction es arbitrary: t b vis) (auto simp: weight_of_def Let_def mark_def)

lemma foldl_min_Min:
  fixes b :: real
  assumes "xs \<noteq> []" and "\<forall>x\<in>set xs. x < b"
  shows "foldl min b xs = Min (set xs)"
proof -
  have "foldl min b xs = Min (insert b (set xs))" for b :: real and xs
  proof (induction xs arbitrary: b)
    case (Cons x xs)
    have "Min (insert (min b x) (set xs)) = Min (insert b (insert x (set xs)))"
      by (cases "xs = []") (auto simp: min.assoc)
    with Cons show ?case by simp
  qed simp
  moreover have "Min (insert b (set xs)) = Min (set xs)"
    using assms by (simp add: min_def) (metis List.finite_set Min_in Min_le not_less set_empty leD le_less_linear)
  ultimately show ?thesis by simp
qed

lemma weighted_product_below_one:
  fixes s d :: real
  assumes "s \<le> 1" and "0 < d" and "d < 1"
  shows "s * (1 - d) < 1"
proof (cases "s \<le> 0")
  case True
  with assms have "s * (1 - d) \<le> 0" by (simp add: mult_le_0_iff)
  then show ?thesis by simp
next
  case False
  with assms have "s * (1 - d) < s * 1" by (intro mult_strict_left_mono) auto
  with assms show ?thesis by simp
qed

subsection \<open>The aggregate of a record\<close>

text \<open>
  Claim C2, as the code has it.  The claim multiplies the score of a weighted field by
  the declared weight.  The code stores \<^verbatim>\<open>(1 - key.weight) || 1\<close> for the key and
  multiplies by that: a field of score 0.8 under a key of declared weight 0.25 gives the
  record the score 0.8 * 0.75 = 0.6, where the claim gives 0.8 * 0.25 = 0.2.
\<close>

theorem declared_weight_counterexample:
  "search quarter_options [VObj (Some 0) [(''b'', VStr ''y'')]] ''p''
     = Inr (VArr [VObj None [(''item'', VObj (Some 0) [(''b'', VStr ''y'')]),
                             (''score'', VNum (Num (3 / 5)))]])
   \<and> spec_aggregate [(4 / 5, 1 / 4)] = 1 / 5"
  by (simp add: quarter_options_def demo_options_def table_Bitap_def hit_def
        search_def prepareSearchers_def analyze_text_def token_part_def Let_def
        finalScore_def checkTextMatches_def add_match_def finish_def ranked_def
        score_result_def weight_of_def stored_weight_def one_minus_def bad_weight_def
        mean_score_def format_def format_one_def project_item_def id_set_def score_val_def
        spec_aggregate_def plain_getFn_def nullish_def)

text \<open>
  The stored weight is 1 also where \<^verbatim>\<open>1 - key.weight\<close> rounds to 1: a field under a key
  of declared weight \<^verbatim>\<open>1e-17\<close> counts as an unweighted one, and its record gets the
  mean of the scores.
\<close>

lemma tiny_weight_example:
  "search tiny_options [VObj (Some 0) [(''b'', VStr ''y'')]] ''p''
     = Inr (VArr [VObj None [(''item'', VObj (Some 0) [(''b'', VStr ''y'')]),
                             (''score'', VNum (Num (1 / 2)))]])"
  by (simp add: tiny_options_def demo_options_def table_Bitap_def hit_def
        search_def prepareSearchers_def analyze_text_def token_part_def Let_def
        finalScore_def checkTextMatches_def add_match_def finish_def ranked_def
        score_result_def weight_of_def stored_weight_def one_minus_def bad_weight_def
        mean_score_def format_def format_one_def project_item_def id_set_def score_val_def
        plain_getFn_def nullish_def)

text \<open>
  Claim C2, amended.  For a record with at least one entry, whose entries have scores of
  at most 1 and keys among the configured keys, and for the weights that the loop over
  the keys has stored: if some entry has a key of stored weight other than 1, the score
  of the record is the minimum over these entries of the score times the stored weight;
  if there is none, it is the mean of the scores of all entries.  The stored weight of
  a key is 1 minus its declared weight, and 1 for a plain string, an absent weight, the
  declared weight 1 and a declared weight of at most \<^verbatim>\<open>2^-54\<close>.
\<close>

theorem weighted_minimum_or_mean:
  assumes loop: "key_loop opts tss fs itm i ks (W0, rs0) = Inr (W, rs)"
    and names: "\<forall>e\<in>set (outputs r). key e \<in> key_name ` set ks"
    and le1: "\<forall>e\<in>set (outputs r). eScore e \<le> 1"
    and nonempty: "outputs r \<noteq> []"
  shows "(\<exists>r'. score_result (Some W) r = Inr r'
              \<and> score r' = Some (Num (code_aggregate ks (outputs r))))
         \<and> list_all (\<lambda>k. key_weight k = stored_form k) ks"
proof -
  let ?wt = "\<lambda>e. weight_for ks (key e)"
  let ?es = "outputs r"
  from key_loop_weights [OF loop]
  have valid: "list_all (\<lambda>k. \<not> key_invalid k) ks" and W: "W = weights_after ks W0"
    by simp_all
  have forms: "list_all (\<lambda>k. key_weight k = stored_form k) ks"
    using valid stored_weight_valid by (auto simp: list_all_iff)
  have look: "W (key e) = Some (?wt e) \<and> 0 < ?wt e \<and> ?wt e \<le> 1" if "e \<in> set ?es" for e
    using weights_after_lookup [OF _ valid, of "key e" W0] names that W by blast
  then have all: "\<forall>e\<in>set ?es. W (key e) = Some (?wt e)" by blast
  let ?weighted = "filter (\<lambda>e. ?wt e \<noteq> 1) ?es"
  let ?products = "map (\<lambda>e. eScore e * ?wt e) ?weighted"
  have loop_eq: "score_loop (Some W) ?es (0, 1, [])
           = Inr (sum_list (map eScore (filter (\<lambda>e. ?wt e = 1) ?es)),
                  foldl min 1 ?products, map (mark ?wt) ?es)"
    using score_loop_closed [OF all, of 0 1 "[]"] by simp
  have agg: "score_result (Some W) r
               = Inr (r\<lparr>outputs := map (mark ?wt) ?es,
                        score := Some (Num (code_aggregate ks ?es))\<rparr>)"
  proof (cases "?weighted = []")
    case True
    then have "filter (\<lambda>e. ?wt e = 1) ?es = ?es"
      by (auto simp: filter_empty_conv filter_id_conv)
    with True loop_eq nonempty show ?thesis
      by (simp add: score_result_def mean_score_def code_aggregate_def mean_def)
  next
    case False
    have below: "\<forall>x\<in>set ?products. x < 1"
    proof
      fix x assume "x \<in> set ?products"
      then obtain e where e: "e \<in> set ?es" "?wt e \<noteq> 1" "x = eScore e * ?wt e"
        by auto
      from look [OF e(1)] e(2) have "0 < 1 - ?wt e" "1 - ?wt e < 1" by auto
      with le1 e(1) have "eScore e * (1 - (1 - ?wt e)) < 1"
        by (intro weighted_product_below_one) auto
      with e(3) show "x < 1" by simp
    qed
    from False have ne: "?products \<noteq> []" by simp
    have best: "foldl min 1 ?products = Min (set ?products)"
      by (rule foldl_min_Min [OF ne below])
    from ne have "set ?products \<noteq> {}" by (simp only: set_empty not_False_eq_True)
    then have "Min (set ?products) \<in> set ?products"
      by (rule Min_in [OF finite_set])
    with below have "Min (set ?products) \<noteq> 1" by force
    with False loop_eq best show ?thesis
      by (simp add: score_result_def code_aggregate_def Let_def)
  qed
  from agg forms show ?thesis by simp
qed

theorem weighted_minimum_or_mean_witness:
  "score_result (Some [''a'' \<mapsto> 1, ''b'' \<mapsto> 3 / 4, ''c'' \<mapsto> 1 / 2, ''d'' \<mapsto> 1])
     \<lparr>item = VNull,
      outputs = [\<lparr>key = ''a'', eScore = 1 / 10, matchedIndices = [], nScore = None\<rparr>,
                 \<lparr>key = ''b'', eScore = 4 / 5, matchedIndices = [], nScore = None\<rparr>,
                 \<lparr>key = ''c'', eScore = 1, matchedIndices = [], nScore = None\<rparr>,
                 \<lparr>key = ''d'', eScore = 3 / 10, matchedIndices = [], nScore = None\<rparr>],
      score = None\<rparr>
   = Inr \<lparr>item = VNull,
      outputs = [\<lparr>key = ''a'', eScore = 1 / 10, matchedIndices = [], nScore = Some (1 / 10)\<rparr>,
                 \<lparr>key = ''b'', eScore = 4 / 5, matchedIndices = [], nScore = None\<rparr>,
                 \<lparr>key = ''c'', eScore = 1, matchedIndices = [], nScore = None\<rparr>,
                 \<lparr>key = ''d'', eScore = 3 / 10, matchedIndices = [], nScore = Some (3 / 10)\<rparr>],
      score = Some (Num (1 / 2))\<rparr>
   \<and> code_aggregate
        [KStr ''a'', KObj ''b'' (Some (1 / 4)), KObj ''c'' (Some (1 / 2)),
         KObj ''d'' (Some (1 / 10 ^ 17))]
        [\<lparr>key = ''a'', eScore = 1 / 10, matchedIndices = [], nScore = None\<rparr>,
         \<lparr>key = ''b'', eScore = 4 / 5, matchedIndices = [], nScore = None\<rparr>,
         \<lparr>key = ''c'', eScore = 1, matchedIndices = [], nScore = None\<rparr>,
         \<lparr>key = ''d'', eScore = 3 / 10, matchedIndices = [], nScore = None\<rparr>] = 1 / 2"
proof -
  let ?ks = "[KStr ''a'', KObj ''b'' (Some (1 / 4)), KObj ''c'' (Some (1 / 2)),
              KObj ''d'' (Some (1 / 10 ^ 17))]"
  let ?es = "[\<lparr>key = ''a'', eScore = 1 / 10, matchedIndices = [], nScore = None\<rparr>,
         \<lparr>key = ''b'', eScore = 4 / 5, matchedIndices = [], nScore = None\<rparr>,
         \<lparr>key = ''c'', eScore = 1, matchedIndices = [], nScore = None\<rparr>,
         \<lparr>key = ''d'', eScore = 3 / 10, matchedIndices = [], nScore = None\<rparr>]"
  let ?r = "\<lparr>item = VNull, outputs = ?es, score = None\<rparr>"
  let ?itm = "VObj (Some 0) []"
  let ?opts = "demo_options [] ?ks"
  have h1: "key_loop ?opts [] (Bitap ?opts ''p'') ?itm 0 ?ks (Map.empty, [])
              = Inr ([''a'' \<mapsto> 1, ''b'' \<mapsto> 3 / 4, ''c'' \<mapsto> 1 / 2, ''d'' \<mapsto> 1], [])"
    by (simp add: demo_options_def stored_weight_def one_minus_def bad_weight_def
          plain_getFn_def nullish_def)
  have h2: "\<forall>e\<in>set (outputs ?r). key e \<in> key_name ` set ?ks" by simp
  have h3: "\<forall>e\<in>set (outputs ?r). eScore e \<le> 1" by simp
  have h4: "outputs ?r \<noteq> []" by simp
  have c: "code_aggregate ?ks ?es = 1 / 2"
    by (simp add: code_aggregate_def weight_for_def stored_weight_def one_minus_def)
  have s: "score_result (Some [''a'' \<mapsto> 1, ''b'' \<mapsto> 3 / 4, ''c'' \<mapsto> 1 / 2, ''d'' \<mapsto> 1]) ?r
     = Inr \<lparr>item = VNull,
      outputs = [\<lparr>key = ''a'', eScore = 1 / 10, matchedIndices = [], nScore = Some (1 / 10)\<rparr>,
                 \<lparr>key = ''b'', eScore = 4 / 5, matchedIndices = [], nScore = None\<rparr>,
                 \<lparr>key = ''c'', eScore = 1, matchedIndices = [], nScore = None\<rparr>,
                 \<lparr>key = ''d'', eScore = 3 / 10, matchedIndices = [], nScore = Some (3 / 10)\<rparr>],
      score = Some (Num (1 / 2))\<rparr>"
    by (simp add: score_result_def weight_of_def Let_def)
  from weighted_minimum_or_mean [OF h1 h2 h3 h4] c s show ?thesis by simp
qed

subsection \<open>Weighted aggregation on the example of the specification\<close>

text \<open>
  Claim C6.  A record with exactly two matched fields, one under a plain key with score
  0.2 and one under a key of declared weight 0.5 with score 0.9, gets the aggregate
  score 0.45 (and not the mean 0.55): the search returns the record with that score.
\<close>

theorem weighted_example_score:
  assumes "keys opts = [KStr ka, KObj kb (Some (1 / 2))]"
    and "ka \<noteq> kb"
    and "getFn opts itm ka = Some (VStr ta)"
    and "getFn opts itm kb = Some (VStr tb)"
    and "Bitap opts p ta = \<lparr>isMatch = True, mScore = 1 / 5, mIndices = ia\<rparr>"
    and "Bitap opts p tb = \<lparr>isMatch = True, mScore = 9 / 10, mIndices = ib\<rparr>"
    and "\<not> tokenize opts"
    and "\<not> recursive_enabled opts"
    and "includeScore opts"
    and "\<not> includeMatches opts"
    and "idKey opts = None"
    and "\<not> first_is_string [itm]"
  shows "search opts [itm] p
           = Inr (VArr [VObj None [(''item'', itm), (''score'', VNum (Num (9 / 20)))]])"
  using assms
  by (simp add: search_def prepareSearchers_def analyze_text_def token_part_def
        finalScore_def checkTextMatches_def add_match_def finish_def ranked_def
        score_result_def weight_of_def stored_weight_def one_minus_def bad_weight_def
        mean_score_def
        format_def format_one_def project_item_def id_set_def score_val_def Let_def)

theorem weighted_example_score_witness:
  "search (demo_options [((''p'', ''x''), 1 / 5), ((''p'', ''y''), 9 / 10)]
             [KStr ''a'', KObj ''b'' (Some (1 / 2))] \<lparr>includeScore := True\<rparr>)
          [VObj (Some 0) [(''a'', VStr ''x''), (''b'', VStr ''y'')]] ''p''
     = Inr (VArr [VObj None [(''item'', VObj (Some 0) [(''a'', VStr ''x''), (''b'', VStr ''y'')]),
                             (''score'', VNum (Num (9 / 20)))]])"
  using weighted_example_score
          [of "demo_options [((''p'', ''x''), 1 / 5), ((''p'', ''y''), 9 / 10)]
                 [KStr ''a'', KObj ''b'' (Some (1 / 2))] \<lparr>includeScore := True\<rparr>"
              "''a''" "''b''" "VObj (Some 0) [(''a'', VStr ''x''), (''b'', VStr ''y'')]"
              "''x''" "''y''" "''p''" "[]" "[]"]
  by (simp add: demo_options_def table_Bitap_def hit_def plain_getFn_def nullish_def)

section \<open>Properties of \<^verbatim>\<open>_search\<close>\<close>

subsection \<open>The weight error\<close>

text \<open>On one record the loop over the keys throws the weight error when it comes to a key
  that fails the check, which it does unless the accessor throws on a key before.\<close>

lemma key_loop_weight_error:
  "(key_loop opts tss fs itm i ks st = Inl InvalidWeight)
     = (list_ex key_invalid ks
        \<and> list_all (\<lambda>k. getFn opts itm (key_name k) \<noteq> None)
             (takeWhile (\<lambda>k. \<not> key_invalid k) ks))"
proof (induction ks arbitrary: st)
  case Nil
  then show ?case by simp
next
  case (Cons k ks)
  obtain W rs where st: "st = (W, rs)" by (cases st)
  show ?case
  proof (cases "key_invalid k")
    case True
    then show ?thesis by (simp add: st key_loop_step)
  next
    case False
    show ?thesis
    proof (cases "getFn opts itm (key_name k)")
      case None
      with False show ?thesis by (simp add: st key_loop_step)
    next
      case (Some v)
      with False Cons.IH show ?thesis by (simp add: st key_loop_step)
    qed
  qed
qed

lemma key_loop_returns_valid:
  "key_loop opts tss fs itm i ks st = Inr st' \<Longrightarrow> \<not> list_ex key_invalid ks"
proof (induction ks arbitrary: st)
  case (Cons k ks)
  then show ?case
    by (cases st) (auto simp: key_loop_step split: if_splits option.splits)
qed simp

lemma score_loop_error: "score_loop W es st = Inl err \<Longrightarrow> err = TypeError"
proof (induction es arbitrary: st)
  case (Cons e es)
  then show ?case
    by (cases st)
       (auto simp: weight_of_def Let_def split: option.splits sum.splits if_splits)
qed simp

lemma computeScore_error: "computeScore W rs = Inl err \<Longrightarrow> err = TypeError"
proof (induction rs)
  case (Cons r rs)
  then show ?case
    by (auto simp: score_result_def split: sum.splits dest: score_loop_error)
qed simp

lemma format_one_error: "format_one opts r = Inl err \<Longrightarrow> err \<noteq> InvalidWeight"
  by (auto simp: format_one_def project_item_def index0_def
           split: sum.splits if_splits option.splits)

lemma format_loop_error: "format_loop opts rs = Inl err \<Longrightarrow> err \<noteq> InvalidWeight"
proof (induction rs)
  case (Cons r rs)
  then show ?case by (auto split: sum.splits dest: format_one_error)
qed simp

lemma finish_error: "finish opts W rs = Inl err \<Longrightarrow> err \<noteq> InvalidWeight"
  by (auto simp: finish_def ranked_def format_def split: sum.splits
           dest: computeScore_error format_loop_error)

lemma search_valid_keys:
  "\<not> list_ex key_invalid (keys opts) \<Longrightarrow> search_list opts tss fs list \<noteq> Inl InvalidWeight"
  "\<not> list_ex key_invalid (keys opts) \<Longrightarrow> search_loop opts tss fs i list st \<noteq> Inl InvalidWeight"
proof (induction opts tss fs list and opts tss fs i list st
         rule: search_list_search_loop.induct)
  case (1 opts tss fs list)
  then show ?case
    by (auto split: sum.splits dest: finish_error)
next
  case (2 opts tss fs i st)
  then show ?case by simp
next
  case (3 opts tss fs i itm rest st)
  show ?case
  proof (cases "key_loop opts tss fs itm i (keys opts) st")
    case (Inl err)
    with "3.prems" key_loop_weight_error [of opts tss fs itm i "keys opts" st]
    have "err \<noteq> InvalidWeight" by auto
    with Inl show ?thesis by simp
  next
    case (Inr st')
    obtain W rs where st': "st' = (W, rs)" by (cases st')
    note k = Inr [unfolded st']
    show ?thesis
      using "3.IH" [OF k refl] "3.prems" k
      by (auto split: option.splits sum.splits)
  qed
qed

lemma search_loop_weight_error:
  "(search_loop opts tss fs i (itm # rest) st = Inl InvalidWeight)
     = (key_loop opts tss fs itm i (keys opts) st = Inl InvalidWeight)"
proof (cases "key_loop opts tss fs itm i (keys opts) st")
  case (Inl err)
  then show ?thesis by simp
next
  case (Inr st')
  from key_loop_returns_valid [OF this] have v: "\<not> list_ex key_invalid (keys opts)" .
  from search_valid_keys(2) [OF v] have "search_loop opts tss fs i (itm # rest) st \<noteq> Inl InvalidWeight" .
  with Inr show ?thesis by (simp del: search_loop.simps)
qed

text \<open>
  Claim C4, as the code has it.  The claim lets a search fail as soon as a configured key
  carries a weight outside (0, 1].  The code tests the weight inside the loop over the
  records: on the empty collection the key of weight 2 is never looked at and the search
  returns the empty list.
\<close>

theorem weight_error_counterexample:
  "key_invalid (KObj ''b'' (Some 2))
   \<and> search (demo_options [] [KObj ''b'' (Some 2)]) [] ''p'' = Inr (VArr [])"
  by (simp add: bad_weight_def search_def prepareSearchers_def demo_options_def
        finish_def ranked_def format_def)

text \<open>
  Claim C4, amended.  A search fails with the weight error if and only if the collection
  is not empty, its first element is not a string, some configured key is an object
  whose weight is at most 0 or above 1, and the accessor returns on the first record for
  every key that is configured before the first such key; the failure is the result of
  the whole call.
\<close>

theorem weight_error_iff:
  "(search opts list pattern = Inl InvalidWeight)
     = (case list of
          [] \<Rightarrow> False
        | itm # rest \<Rightarrow>
            \<not> first_is_string list
            \<and> list_ex key_invalid (keys opts)
            \<and> list_all (\<lambda>k. getFn opts itm (key_name k) \<noteq> None)
                 (takeWhile (\<lambda>k. \<not> key_invalid k) (keys opts)))"
proof (cases list)
  case Nil
  then show ?thesis
    by (simp add: search_def prepareSearchers_def finish_def ranked_def format_def)
next
  case (Cons itm rest)
  show ?thesis
  proof (cases "first_is_string list")
    case True
    then show ?thesis
      by (simp add: Cons search_def prepareSearchers_def split: prod.splits)
  next
    case False
    have "(search_list opts tss fs list = Inl InvalidWeight)
            = (search_loop opts tss fs 0 list (Map.empty, []) = Inl InvalidWeight)" for tss fs
      using False finish_error [of opts]
      by (auto split: sum.splits)
    then show ?thesis
      using False
      by (simp add: Cons search_def prepareSearchers_def search_loop_weight_error
            key_loop_weight_error del: search_list.simps search_loop.simps)
  qed
qed

text \<open>
  The accessor throws on a first record that is \<^verbatim>\<open>null\<close>: with a plain key before the
  key of weight 2 the search fails with the error of the accessor, and with the key of
  weight 2 first it fails with the weight error.
\<close>

lemma null_record_example:
  "search (demo_options [] [KStr ''a'', KObj ''b'' (Some 2)]) [VNull] ''p''
     = Inl AccessorError
   \<and> search (demo_options [] [KObj ''b'' (Some 2), KStr ''a'']) [VNull] ''p''
     = Inl InvalidWeight"
  by (simp add: search_def prepareSearchers_def demo_options_def plain_getFn_def
        nullish_def bad_weight_def)

subsection \<open>A key of weight 1\<close>

text \<open>None of the functions reads \<^verbatim>\<open>options.keys\<close> but the loop over the keys.\<close>

lemma word_loop_keys [simp]:
  "word_loop (opts\<lparr>keys := ks\<rparr>) ts words st = word_loop opts ts words st"
  by (induction opts ts words st rule: word_loop.induct) (auto simp: Let_def)

lemma token_loop_keys [simp]:
  "token_loop (opts\<lparr>keys := ks\<rparr>) tss words st = token_loop opts tss words st"
  by (induction opts tss words st rule: token_loop.induct) (auto split: prod.splits)

lemma analyze_text_keys [simp]:
  "analyze_text (opts\<lparr>keys := ks\<rparr>) tss fs k record index text rs
     = analyze_text opts tss fs k record index text rs"
  by (simp add: analyze_text_def token_part_def checkTextMatches_def)

lemma analyze_keys [simp]:
  "analyze (opts\<lparr>keys := ks\<rparr>) tss fs k record index v rs
     = analyze opts tss fs k record index v rs"
proof (induction v arbitrary: rs)
  case (VArr vs)
  then have "fold (\<lambda>v. analyze (opts\<lparr>keys := ks\<rparr>) tss fs k record index v) vs rs
               = fold (\<lambda>v. analyze opts tss fs k record index v) vs rs"
    by (induction vs arbitrary: rs) auto
  then show ?case by simp
qed auto

lemma key_loop_keys [simp]:
  "key_loop (opts\<lparr>keys := ks\<rparr>) tss fs itm i kl st = key_loop opts tss fs itm i kl st"
proof (induction kl arbitrary: st)
  case (Cons k kl)
  then show ?case by (cases st) (simp add: key_loop_step split: option.splits)
qed simp

lemma flat_loop_keys [simp]:
  "flat_loop (opts\<lparr>keys := ks\<rparr>) tss fs i vs rs = flat_loop opts tss fs i vs rs"
  by (induction vs arbitrary: i rs) auto

lemma project_item_keys [simp]:
  "project_item (opts\<lparr>keys := ks\<rparr>) r = project_item opts r"
  by (simp add: project_item_def id_set_def)

lemma format_one_keys [simp]: "format_one (opts\<lparr>keys := ks\<rparr>) r = format_one opts r"
  by (simp add: format_one_def cong: sum.case_cong)

lemma format_loop_keys [simp]:
  "format_loop (opts\<lparr>keys := ks\<rparr>) rs = format_loop opts rs"
  by (induction rs) (simp_all cong: sum.case_cong)

lemma finish_keys [simp]: "finish (opts\<lparr>keys := ks\<rparr>) W rs = finish opts W rs"
  by (auto simp: finish_def ranked_def format_def split: sum.splits)

lemma key_loop_weight_one:
  "key_loop opts tss fs itm i (ks1 @ KObj name (Some 1) # ks2) st
     = key_loop opts tss fs itm i (ks1 @ KStr name # ks2) st"
proof (induction ks1 arbitrary: st)
  case Nil
  have sw: "stored_weight (Some 1) = 1"
    by (simp add: stored_weight_def one_minus_def)
  show ?case by (cases st) (simp add: bad_weight_def sw split: option.splits)
next
  case (Cons k ks1)
  then show ?case by (cases st) (simp add: key_loop_step split: option.splits)
qed

lemma search_keys_equiv:
  "(\<And>itm i st. key_loop opts tss fs itm i ks' st = key_loop opts tss fs itm i (keys opts) st)
     \<Longrightarrow> search_list (opts\<lparr>keys := ks'\<rparr>) tss fs list = search_list opts tss fs list"
  "(\<And>itm i st. key_loop opts tss fs itm i ks' st = key_loop opts tss fs itm i (keys opts) st)
     \<Longrightarrow> search_loop (opts\<lparr>keys := ks'\<rparr>) tss fs i list st = search_loop opts tss fs i list st"
proof (induction opts tss fs list and opts tss fs i list st
         rule: search_list_search_loop.induct)
  case (1 opts tss fs list)
  then show ?case by (auto split: sum.splits)
next
  case (2 opts tss fs i st)
  then show ?case by simp
next
  case (3 opts tss fs i itm rest st)
  show ?case
  proof (cases "key_loop opts tss fs itm i (keys opts) st")
    case (Inl err)
    with "3.prems" show ?thesis by simp
  next
    case (Inr st')
    obtain W rs where st': "st' = (W, rs)" by (cases st')
    note k = Inr [unfolded st']
    show ?thesis
      using "3.IH" [OF k refl] "3.prems" k 
      by (auto split: option.splits sum.splits)
  qed
qed

text \<open>
  Claim C10.  A search with a key configured as an object of weight 1 returns what the
  search with the key configured as the string of its name returns, whatever the other
  keys, the collection, the pattern and the other options: the same value or the same
  error.
\<close>

theorem weight_one_as_plain:
  "search (opts\<lparr>keys := ks1 @ KObj name (Some 1) # ks2\<rparr>) list pattern
     = search (opts\<lparr>keys := ks1 @ KStr name # ks2\<rparr>) list pattern"
proof -
  let ?o = "opts\<lparr>keys := ks1 @ KStr name # ks2\<rparr>"
  have "opts\<lparr>keys := ks1 @ KObj name (Some 1) # ks2\<rparr> = ?o\<lparr>keys := ks1 @ KObj name (Some 1) # ks2\<rparr>"
    by simp
  moreover have "search_list (?o\<lparr>keys := ks1 @ KObj name (Some 1) # ks2\<rparr>) tss fs list
                   = search_list ?o tss fs list" for tss fs
    by (rule search_keys_equiv(1)) (simp add: key_loop_weight_one)
  ultimately show ?thesis
    by (simp add: search_def prepareSearchers_def del: search_list.simps)
qed

subsection \<open>The order of the results\<close>

lemma consistentD:
  assumes "consistent cmp xs"
  shows "\<And>a b. a \<in> set xs \<Longrightarrow> b \<in> set xs \<Longrightarrow> not_after (cmp a b) \<or> not_after (cmp b a)"
    and "\<And>a b c. a \<in> set xs \<Longrightarrow> b \<in> set xs \<Longrightarrow> c \<in> set xs
           \<Longrightarrow> not_after (cmp a b) \<Longrightarrow> not_after (cmp b c) \<Longrightarrow> not_after (cmp a c)"
  using assms unfolding consistent_def list_all_iff by blast+

lemma set_insert_by [simp]: "set (insert_by cmp x xs) = insert x (set xs)"
  by (induction xs) auto

lemma set_js_sort [simp]: "set (js_sort cmp xs) = set xs"
  by (induction xs) auto

lemma length_insert_by [simp]: "length (insert_by cmp x xs) = Suc (length xs)"
  by (induction xs) auto

lemma length_js_sort [simp]: "length (js_sort cmp xs) = length xs"
  by (induction xs) auto

lemma insert_by_sorted:
  assumes tot: "\<And>a b. a \<in> S \<Longrightarrow> b \<in> S \<Longrightarrow> not_after (cmp a b) \<or> not_after (cmp b a)"
    and trans: "\<And>a b c. a \<in> S \<Longrightarrow> b \<in> S \<Longrightarrow> c \<in> S
           \<Longrightarrow> not_after (cmp a b) \<Longrightarrow> not_after (cmp b c) \<Longrightarrow> not_after (cmp a c)"
    and "x \<in> S" and "set xs \<subseteq> S"
    and "sorted_wrt (\<lambda>a b. not_after (cmp a b)) xs"
  shows "sorted_wrt (\<lambda>a b. not_after (cmp a b)) (insert_by cmp x xs)"
  using assms(3-)
proof (induction xs)
  case Nil
  then show ?case by simp
next
  case (Cons y ys)
  show ?case
  proof (cases "not_after (cmp x y)")
    case True
    have "not_after (cmp x z)" if "z \<in> set ys" for z
      using trans [of x y z] True Cons.prems that by auto
    with True Cons.prems show ?thesis by auto
  next
    case False
    with tot [of x y] Cons.prems have "not_after (cmp y x)" by auto
    with False Cons show ?thesis by auto
  qed
qed

lemma js_sort_sorted:
  assumes "consistent cmp xs"
  shows "sorted_wrt (\<lambda>a b. not_after (cmp a b)) (js_sort cmp xs)"
proof -
  note tot = consistentD(1) [OF assms] and trans = consistentD(2) [OF assms]
  have "set ys \<subseteq> set xs \<Longrightarrow> sorted_wrt (\<lambda>a b. not_after (cmp a b)) (js_sort cmp ys)" for ys
  proof (induction ys)
    case Nil
    show ?case by simp
  next
    case (Cons y ys)
    from Cons.prems have y: "y \<in> set xs" and sub: "set (js_sort cmp ys) \<subseteq> set xs"
      by simp_all
    from Cons have srt: "sorted_wrt (\<lambda>a b. not_after (cmp a b)) (js_sort cmp ys)"
      by simp
    have "sorted_wrt (\<lambda>a b. not_after (cmp a b)) (insert_by cmp y (js_sort cmp ys))"
      by (rule insert_by_sorted [where S = "set xs", OF tot trans y sub srt])
    then show ?case by simp
  qed
  then show ?thesis by simp
qed

lemma consistent_set:
  "set xs = set ys \<Longrightarrow> consistent cmp xs = consistent cmp ys"
  by (simp add: consistent_def list_all_iff)

lemma score_loop_length:
  "score_loop W es (t, b, vis) = Inr (t', b', vis') \<Longrightarrow> length vis' = length vis + length es"
proof (induction es arbitrary: t b vis)
  case (Cons e es)
  then show ?case
    by (auto simp: Let_def split: sum.splits if_splits)
qed simp

lemma score_result_number:
  assumes "score_result W r = Inr r'" and "outputs r' \<noteq> []"
  shows "\<exists>x. score r' = Some (Num x)"
proof -
  from assms(1) obtain t b vis where
    l: "score_loop W (outputs r) (0, 1, []) = Inr (t, b, vis)"
    and r': "r' = r\<lparr>outputs := vis,
                    score := Some (if b = 1 then mean_score t (length (outputs r)) else Num b)\<rparr>"
    by (auto simp: score_result_def split: sum.splits)
  from score_loop_length [OF l] have "length vis = length (outputs r)" by simp
  with assms(2) r' have "length (outputs r) \<noteq> 0" by auto
  with r' show ?thesis by (simp add: mean_score_def)
qed

lemma score_result_outputs:
  assumes "score_result W r = Inr r'"
  shows "(outputs r' = []) = (outputs r = [])"
proof -
  from assms(1) obtain t b vis where
    l: "score_loop W (outputs r) (0, 1, []) = Inr (t, b, vis)" and r': "outputs r' = vis"
    by (auto simp: score_result_def split: sum.splits)
  from score_loop_length [OF l] r' show ?thesis by auto
qed

lemma computeScore_numbers:
  "computeScore W rs = Inr scored
     \<Longrightarrow> \<forall>r\<in>set scored. outputs r \<noteq> [] \<longrightarrow> (\<exists>x. score r = Some (Num x))"
proof (induction rs arbitrary: scored)
  case (Cons r rs)
  then show ?case
    by (auto split: sum.splits dest: score_result_number)
qed simp

lemma computeScore_outputs:
  "computeScore W rs = Inr scored \<Longrightarrow> \<forall>r\<in>set rs. outputs r \<noteq> []
     \<Longrightarrow> \<forall>r\<in>set scored. outputs r \<noteq> []"
proof (induction rs arbitrary: scored)
  case (Cons r rs)
  then show ?case
    by (auto split: sum.splits simp: score_result_outputs)
qed simp

lemma push_output_matched: "all_matched rs \<Longrightarrow> all_matched (push_output index e rs)"
  by (induction rs) (auto simp: all_matched_def)

lemma all_matched_snd: "all_matched rs \<Longrightarrow> \<forall>r\<in>set (map snd rs). outputs r \<noteq> []"
  by (auto simp: all_matched_def list_all_iff)

lemma add_match_matched: "all_matched rs \<Longrightarrow> all_matched (add_match index record e rs)"
  by (auto simp: add_match_def push_output_matched split: option.splits)
     (auto simp: all_matched_def)

lemma analyze_matched:
  "all_matched rs \<Longrightarrow> all_matched (analyze opts tss fs k record index v rs)"
proof (induction v arbitrary: rs)
  case (VArr vs)
  then have "all_matched (fold (\<lambda>v. analyze opts tss fs k record index v) vs rs)"
    by (induction vs arbitrary: rs) auto
  then show ?case by simp
qed (auto simp: analyze_text_closed add_match_matched)

lemma key_loop_matched:
  "key_loop opts tss fs itm i ks (W, rs) = Inr (W', rs') \<Longrightarrow> all_matched rs
     \<Longrightarrow> all_matched rs'"
proof (induction ks arbitrary: W rs)
  case (Cons k ks)
  then show ?case
    by (auto simp: key_loop_step analyze_matched split: if_splits option.splits)
qed simp

lemma search_loop_matched:
  "\<not> recursive_enabled opts \<Longrightarrow> search_loop opts tss fs i list (W, rs) = Inr (W', rs')
     \<Longrightarrow> all_matched rs \<Longrightarrow> all_matched rs'"
proof (induction list arbitrary: i W rs)
  case (Cons itm rest)
  then show ?case
    by (auto split: sum.splits dest: key_loop_matched)
qed simp

lemma default_not_after:
  assumes "score a = Some (Num x)" and "score b = Some (Num y)"
  shows "not_after (default_sortFn a b) = (x \<le> y)"
  using assms by (simp add: default_sortFn_def score_num_def)

lemma default_ascending:
  assumes nums: "\<forall>r\<in>set rs. \<exists>x. score r = Some (Num x)"
  shows "ascending (js_sort default_sortFn rs)"
proof -
  have le: "not_after (default_sortFn a b) = score_le a b" if "a \<in> set rs" "b \<in> set rs" for a b
  proof -
    from nums that obtain x y where "score a = Some (Num x)" "score b = Some (Num y)"
      by blast
    then show ?thesis by (simp add: score_le_def default_not_after)
  qed
  have tot: "not_after (default_sortFn a b) \<or> not_after (default_sortFn b a)"
    if "a \<in> set rs" "b \<in> set rs" for a b
  proof -
    from nums that obtain x y where "score a = Some (Num x)" "score b = Some (Num y)"
      by blast
    then show ?thesis by (auto simp: default_not_after)
  qed
  have trans: "not_after (default_sortFn a c)"
    if "a \<in> set rs" "b \<in> set rs" "c \<in> set rs"
      "not_after (default_sortFn a b)" "not_after (default_sortFn b c)" for a b c
  proof -
    from nums that(1-3) obtain x y z where
      "score a = Some (Num x)" "score b = Some (Num y)" "score c = Some (Num z)"
      by blast
    with that(4,5) show ?thesis by (auto simp: default_not_after)
  qed
  have "consistent default_sortFn rs"
    unfolding consistent_def list_all_iff
    using tot trans by blast
  from js_sort_sorted [OF this]
  have "sorted_wrt (\<lambda>a b. not_after (default_sortFn a b)) (js_sort default_sortFn rs)" .
  then have "sorted_wrt score_le (js_sort default_sortFn rs)"
    by (rule sorted_wrt_mono_rel [rotated]) (simp add: le)
  then show ?thesis by (simp add: ascending_def)
qed

lemma search_as_ranking:
  "\<not> first_is_string list \<Longrightarrow>
   search opts list pattern
     = (case ranking opts list pattern of Inl err \<Rightarrow> Inl err | Inr out \<Rightarrow> format opts out)"
  by (simp add: search_def ranking_def rank_list_def finish_def split: prod.splits sum.splits)

text \<open>The definitions that an evaluation of a search unfolds.\<close>

lemmas eval_defs =
  search_def ranking_def rank_list_def prepareSearchers_def demo_options_def table_Bitap_def
  hit_def miss_def analyze_text_def token_part_def Let_def finalScore_def
  checkTextMatches_def add_match_def finish_def ranked_def score_result_def weight_of_def
  stored_weight_def bad_weight_def mean_score_def default_sortFn_def score_num_def
  format_def format_one_def project_item_def id_set_def score_val_def
  child_list_def splice_def assign_def nullish_def plain_getFn_def one_minus_def

text \<open>
  What holds of the order.  On a collection of records with \<^verbatim>\<open>shouldSort\<close>, the search
  returns the formatted ranked list; the ranked list is sorted under the comparator when
  the comparator is consistent on it, and under the default comparator it is in
  ascending order of the scores when every ranked record has an entry, as is the case
  without recursion.
\<close>

theorem sorted_by_score:
  assumes sort: "shouldSort opts"
    and records: "\<not> first_is_string list"
    and out: "ranking opts list pattern = Inr out"
  shows "search opts list pattern = format opts out
         \<and> (consistent (sortFn opts) out
              \<longrightarrow> sorted_wrt (\<lambda>a b. not_after (sortFn opts a b)) out)
         \<and> (sortFn opts = default_sortFn
              \<and> (\<not> recursive_enabled opts \<or> list_all (\<lambda>r. outputs r \<noteq> []) out)
              \<longrightarrow> ascending out)"
proof -
  obtain tss fs where p: "prepareSearchers opts pattern = (tss, fs)"
    by (cases "prepareSearchers opts pattern")
  with out obtain W rs where
    loop: "search_loop opts tss fs 0 list (Map.empty, []) = Inr (W, rs)"
    and rk: "ranked opts W rs = Inr out"
    by (auto simp: ranking_def rank_list_def split: sum.splits)
  from rk sort obtain scored where
    cs: "computeScore (Some W) (map snd rs) = Inr scored"
    and o: "out = js_sort (sortFn opts) scored"
    by (auto simp: ranked_def split: sum.splits)
  have 1: "search opts list pattern = format opts out"
    using records out by (simp add: search_as_ranking)
  have 2: "sorted_wrt (\<lambda>a b. not_after (sortFn opts a b)) out" if "consistent (sortFn opts) out"
  proof -
    from that o have "consistent (sortFn opts) scored"
      using consistent_set [of out scored "sortFn opts"] by simp
    from js_sort_sorted [OF this] o show ?thesis by simp
  qed
  have 3: "ascending out"
    if d: "sortFn opts = default_sortFn"
      and m: "\<not> recursive_enabled opts \<or> list_all (\<lambda>r. outputs r \<noteq> []) out"
  proof -
    have "\<forall>r\<in>set scored. outputs r \<noteq> []"
    proof (cases "recursive_enabled opts")
      case False
      from search_loop_matched [OF False loop] have "all_matched rs"
        by (simp add: all_matched_def)
      from computeScore_outputs [OF cs all_matched_snd [OF this]] show ?thesis .
    next
      case True
      with m o show ?thesis by (simp add: list_all_iff)
    qed
    with computeScore_numbers [OF cs] have "\<forall>r\<in>set scored. \<exists>x. score r = Some (Num x)"
      by blast
    from default_ascending [OF this] o d show ?thesis by simp
  qed
  from 1 2 3 show ?thesis by blast
qed

theorem sorted_by_score_witness:
  "ranking three_options three_list ''p''
     = Inr [\<lparr>item = VObj (Some 1) [(''a'', VStr ''v'')],
             outputs = [\<lparr>key = ''a'', eScore = 1 / 5, matchedIndices = [], nScore = Some (1 / 5)\<rparr>],
             score = Some (Num (1 / 5))\<rparr>,
            \<lparr>item = VObj (Some 2) [(''a'', VStr ''w'')],
             outputs = [\<lparr>key = ''a'', eScore = 3 / 10, matchedIndices = [], nScore = Some (3 / 10)\<rparr>],
             score = Some (Num (3 / 10))\<rparr>,
            \<lparr>item = VObj (Some 0) [(''a'', VStr ''u'')],
             outputs = [\<lparr>key = ''a'', eScore = 1 / 2, matchedIndices = [], nScore = Some (1 / 2)\<rparr>],
             score = Some (Num (1 / 2))\<rparr>]
   \<and> search three_options three_list ''p''
     = Inr (VArr [VObj (Some 1) [(''a'', VStr ''v'')], VObj (Some 2) [(''a'', VStr ''w'')],
                  VObj (Some 0) [(''a'', VStr ''u'')]])
   \<and> ascending
       [\<lparr>item = VObj (Some 1) [(''a'', VStr ''v'')],
             outputs = [\<lparr>key = ''a'', eScore = 1 / 5, matchedIndices = [], nScore = Some (1 / 5)\<rparr>],
             score = Some (Num (1 / 5))\<rparr>,
            \<lparr>item = VObj (Some 2) [(''a'', VStr ''w'')],
             outputs = [\<lparr>key = ''a'', eScore = 3 / 10, matchedIndices = [], nScore = Some (3 / 10)\<rparr>],
             score = Some (Num (3 / 10))\<rparr>,
            \<lparr>item = VObj (Some 0) [(''a'', VStr ''u'')],
             outputs = [\<lparr>key = ''a'', eScore = 1 / 2, matchedIndices = [], nScore = Some (1 / 2)\<rparr>],
             score = Some (Num (1 / 2))\<rparr>]"
proof -
  let ?out = "[\<lparr>item = VObj (Some 1) [(''a'', VStr ''v'')],
             outputs = [\<lparr>key = ''a'', eScore = 1 / 5, matchedIndices = [], nScore = Some (1 / 5)\<rparr>],
             score = Some (Num (1 / 5))\<rparr>,
            \<lparr>item = VObj (Some 2) [(''a'', VStr ''w'')],
             outputs = [\<lparr>key = ''a'', eScore = 3 / 10, matchedIndices = [], nScore = Some (3 / 10)\<rparr>],
             score = Some (Num (3 / 10))\<rparr>,
            \<lparr>item = VObj (Some 0) [(''a'', VStr ''u'')],
             outputs = [\<lparr>key = ''a'', eScore = 1 / 2, matchedIndices = [], nScore = Some (1 / 2)\<rparr>],
             score = Some (Num (1 / 2))\<rparr>]"
  have h1: "shouldSort three_options" by (simp add: three_options_def demo_options_def)
  have h2: "\<not> first_is_string three_list" by (simp add: three_list_def)
  have h3: "ranking three_options three_list ''p'' = Inr ?out"
    by (simp add: three_options_def three_list_def eval_defs)
  have d: "sortFn three_options = default_sortFn" "\<not> recursive_enabled three_options"
    by (simp_all add: three_options_def demo_options_def)
  have f: "format three_options ?out
     = Inr (VArr [VObj (Some 1) [(''a'', VStr ''v'')], VObj (Some 2) [(''a'', VStr ''w'')],
                  VObj (Some 0) [(''a'', VStr ''u'')]])"
    by (simp add: three_options_def eval_defs)
  from sorted_by_score [OF h1 h2 h3] d f h3 show ?thesis by simp
qed

text \<open>A list of two or more results with a \<open>NaN\<close> among its scores is in
  ascending order in no arrangement.\<close>

lemma nan_never_ascending:
  assumes "r \<in> set rs" and "score r = Some NaN" and "2 \<le> length rs"
  shows "\<not> ascending rs"
proof
  assume asc: "ascending rs"
  from assms(1) obtain i where i: "i < length rs" "rs ! i = r"
    by (auto simp: in_set_conv_nth)
  from assms(3) i(1) obtain j where j: "j < length rs" "j \<noteq> i"
    by (cases "i = 0") (auto intro: that [of 0] that [of 1])
  have nan: "\<not> score_le r x" "\<not> score_le x r" for x
    using assms(2) by (auto simp: score_le_def split: option.splits jsnum.splits)
  show False
  proof (cases "i < j")
    case True
    with asc j(1) have "score_le (rs ! i) (rs ! j)"
      by (simp add: ascending_def sorted_wrt_iff_nth_less)
    with i(2) nan show False by simp
  next
    case False
    with j(2) have "j < i" by simp
    with asc i(1) have "score_le (rs ! j) (rs ! i)"
      by (simp add: ascending_def sorted_wrt_iff_nth_less)
    with i(2) nan show False by simp
  qed
qed

text \<open>
  Claim C9, on the code.  With recursion, a record that is kept for its children alone
  has no entry, and \<^verbatim>\<open>_computeScore\<close> gives it the score \<^verbatim>\<open>0 / 0\<close>.  The default
  comparator returns \<open>NaN\<close> against such a record, so that it separates the records
  around it: the search below returns the scores 0.2, \<open>NaN\<close>, 0 in this order, and by
  \<open>nan_never_ascending\<close> no other arrangement of them would be ascending.
\<close>

theorem nan_score_breaks_order:
  "shouldSort nested_options
   \<and> search nested_options nested_list ''p''
     = Inr (VArr
         [VObj None [(''item'', VObj (Some 0) [(''a'', VStr ''x'')]),
                     (''score'', VNum (Num (1 / 5)))],
          VObj None [(''item'',
                      VObj None
                        [(''a'', VStr ''zz''),
                         (''kids'',
                          VArr [VObj None [(''item'', VObj (Some 2) [(''a'', VStr ''y'')]),
                                           (''score'', VNum (Num 0))]])]),
                     (''score'', VNum NaN)],
          VObj None [(''item'', VObj (Some 3) [(''a'', VStr ''y'')]),
                     (''score'', VNum (Num 0))]])
   \<and> (case ranking nested_options nested_list ''p'' of
        Inl err \<Rightarrow> False
      | Inr out \<Rightarrow> map score out = [Some (Num (1 / 5)), Some NaN, Some (Num 0)]
                   \<and> \<not> ascending out)"
  by (simp add: nested_options_def nested_list_def eval_defs ascending_def score_le_def)

subsection \<open>Recursion into the children\<close>

lemma input_objs_map_of:
  "map_of ps k = Some v \<Longrightarrow> input_objs v \<subseteq> props_objs ps"
  by (auto simp: props_objs_def dest!: map_of_SomeD)

lemma props_objs_indexed: "props_objs (indexed xs) \<subseteq> (\<Union>v\<in>set xs. input_objs v)"
  by (auto simp: props_objs_def indexed_def dest!: set_zip_rightD)

lemma own_props_objs: "props_objs (own_props v) \<subseteq> input_objs v"
proof (cases v)
  case (VArr xs)
  then show ?thesis using props_objs_indexed [of xs] by simp
next
  case (VStr s)
  then show ?thesis using props_objs_indexed [of "map (\<lambda>c. VStr [c]) s"] by auto
next
  case (VObj t ps)
  then show ?thesis by (auto simp: props_objs_def)
qed (simp_all add: props_objs_def)

lemma get_prop_objs: "input_objs (get_prop v k) \<subseteq> input_objs v"
proof (cases v)
  case (VArr xs)
  show ?thesis
  proof (cases "map_of (indexed xs) k")
    case None
    with VArr show ?thesis by simp
  next
    case (Some x)
    from input_objs_map_of [OF this] props_objs_indexed [of xs] VArr Some
    show ?thesis by auto
  qed
next
  case (VStr s)
  show ?thesis
  proof (cases "map_of (indexed (map (\<lambda>c. VStr [c]) s)) k")
    case None
    with VStr show ?thesis by simp
  next
    case (Some x)
    from input_objs_map_of [OF this] props_objs_indexed [of "map (\<lambda>c. VStr [c]) s"] VStr Some
    show ?thesis by auto
  qed
next
  case (VObj t ps)
  show ?thesis
  proof (cases "map_of ps k")
    case None
    with VObj show ?thesis by simp
  next
    case (Some x)
    from input_objs_map_of [OF this] VObj Some show ?thesis
      by (auto simp: props_objs_def)
  qed
qed simp_all

lemma props_objs_simps [simp]:
  "props_objs [] = {}"
  "props_objs ((k, v) # ps) = input_objs v \<union> props_objs ps"
  "props_objs (ps @ qs) = props_objs ps \<union> props_objs qs"
  by (auto simp: props_objs_def)

lemma set_prop_objs: "props_objs (set_prop ps k v) \<subseteq> props_objs ps \<union> input_objs v"
  by (induction ps) (auto split: if_splits)

lemma assign_objs: "input_objs (assign src k v) \<subseteq> input_objs src \<union> input_objs v"
  using set_prop_objs [of "own_props src" k v] own_props_objs [of src]
  by (auto simp: assign_def props_objs_def)

lemma items_within_simps [simp]:
  "items_within S []"
  "items_within S ((i, r) # rs) = (input_objs (item r) \<subseteq> S \<and> items_within S rs)"
  "items_within S (rs @ qs) = (items_within S rs \<and> items_within S qs)"
  by (auto simp: items_within_def)

lemma items_within_map_of:
  "items_within S rs \<Longrightarrow> map_of rs i = Some r \<Longrightarrow> input_objs (item r) \<subseteq> S"
  by (force simp: items_within_def dest!: map_of_SomeD)

lemma push_output_items: "items_within S rs \<Longrightarrow> items_within S (push_output index e rs)"
  by (induction rs) auto

lemma add_match_items:
  "items_within S rs \<Longrightarrow> input_objs record \<subseteq> S
     \<Longrightarrow> items_within S (add_match index record e rs)"
  by (auto simp: add_match_def push_output_items split: option.splits)

lemma analyze_items:
  "items_within S rs \<Longrightarrow> input_objs record \<subseteq> S
     \<Longrightarrow> items_within S (analyze opts tss fs k record index v rs)"
proof (induction v arbitrary: rs)
  case (VArr vs)
  then have "items_within S (fold (\<lambda>v. analyze opts tss fs k record index v) vs rs)"
    by (induction vs arbitrary: rs) auto
  then show ?case by simp
qed (auto simp: analyze_text_closed add_match_items)

lemma key_loop_items:
  "key_loop opts tss fs itm i ks (W, rs) = Inr (W', rs') \<Longrightarrow> items_within S rs
     \<Longrightarrow> input_objs itm \<subseteq> S \<Longrightarrow> items_within S rs'"
proof (induction ks arbitrary: W rs)
  case (Cons k ks)
  then show ?case
    by (auto simp: key_loop_step analyze_items split: if_splits option.splits)
qed simp

lemma flat_loop_items:
  "items_within S rs \<Longrightarrow> items_within S (flat_loop opts tss fs i vs rs)"
  by (induction vs arbitrary: i rs) (auto simp: analyze_items)

lemma replace_result_items:
  "items_within S rs \<Longrightarrow> input_objs (item r') \<subseteq> S
     \<Longrightarrow> items_within S (replace_result i r' rs)"
  by (induction rs) auto

lemma splice_items:
  assumes "items_within S rs" and "input_objs itm \<subseteq> S" and "input_objs children \<subseteq> S"
  shows "items_within S (splice k i itm children rs)"
proof (cases "map_of rs i")
  case None
  with assms assign_objs [of itm k children] show ?thesis
    by (auto simp: splice_def)
next
  case (Some r)
  from items_within_map_of [OF assms(1) Some] assms(3) assign_objs [of "item r" k children]
  have "input_objs (assign (item r) k children) \<subseteq> S" by blast
  with Some assms(1) show ?thesis
    by (simp add: splice_def replace_result_items)
qed

lemma child_list_objs:
  assumes "child_list itm k = Some cs"
  shows "(\<Union>v\<in>set cs. input_objs v) \<subseteq> input_objs itm"
proof -
  from assms have "get_prop itm k = VArr cs"
    by (auto simp: child_list_def split: jsval.splits if_splits)
  with get_prop_objs [of itm k] show ?thesis by simp
qed

lemma score_result_item: "score_result W r = Inr r' \<Longrightarrow> item r' = item r"
  by (auto simp: score_result_def split: sum.splits)

lemma computeScore_items: "computeScore W rs = Inr scored \<Longrightarrow> map item scored = map item rs"
proof (induction rs arbitrary: scored)
  case (Cons r rs)
  then show ?case by (auto split: sum.splits dest: score_result_item)
qed simp

lemma ranked_items:
  assumes "ranked opts W rs = Inr out"
  shows "item ` set out = item ` snd ` set rs"
proof -
  from assms obtain scored where cs: "computeScore (Some W) (map snd rs) = Inr scored"
    and "set out = set scored"
    by (auto simp: ranked_def split: sum.splits if_splits)
  moreover from computeScore_items [OF cs] have "set (map item scored) = set (map item (map snd rs))"
    by simp
  ultimately show ?thesis by (simp add: image_image)
qed

lemma index0_objs:
  assumes "index0 v = Inr x"
  shows "input_objs x \<subseteq> input_objs v"
proof -
  from assms have "x = get_prop v ''0''"
    by (simp add: index0_def split: if_splits)
  with get_prop_objs [of v "''0''"] show ?thesis by simp
qed

lemma enc_indices_objs [simp]: "input_objs (enc_indices xs) = {}"
proof -
  have "input_objs (case p of (a, b) \<Rightarrow> VArr [VNum (Num (real a)), VNum (Num (real b))]) = {}"
    for p :: "nat \<times> nat"
    by (cases p) simp
  then show ?thesis by (simp add: enc_indices_def)
qed

lemma match_obj_objs [simp]: "input_objs (match_obj e) = {}"
  by (simp add: match_obj_def)

lemma score_val_objs [simp]: "input_objs (score_val r) = {}"
  by (cases "score r") (simp_all add: score_val_def)

lemma format_one_objs:
  assumes "format_one opts r = Inr d" and "collaborators_pure opts"
  shows "input_objs d \<subseteq> input_objs (item r)"
proof -
  from assms(1) obtain it where it: "project_item opts r = Inr it"
    and d: "d = (if \<not> includeMatches opts \<and> \<not> includeScore opts then it
               else VObj None
                      ([(''item'', it)]
                       @ (if includeMatches opts
                          then [(''matches'', VArr (map match_obj (outputs r)))] else [])
                       @ (if includeScore opts then [(''score'', score_val r)] else [])))"
    by (auto simp: format_one_def split: sum.splits)
  have "input_objs it \<subseteq> input_objs (item r)"
  proof (cases "id_set opts")
    case True
    with it obtain v where g: "getFn opts (item r) (the (idKey opts)) = Some v"
      and i: "index0 v = Inr it"
      by (auto simp: project_item_def split: option.splits)
    from assms(2) g have "input_objs v \<subseteq> input_objs (item r)"
      by (auto simp: collaborators_pure_def)
    with index0_objs [OF i] show ?thesis by blast
  next
    case False
    with it show ?thesis by (simp add: project_item_def)
  qed
  with d show ?thesis by auto
qed

lemma format_loop_objs:
  "format_loop opts rs = Inr ds \<Longrightarrow> collaborators_pure opts
     \<Longrightarrow> (\<Union>d\<in>set ds. input_objs d) \<subseteq> (\<Union>r\<in>set rs. input_objs (item r))"
proof (induction rs arbitrary: ds)
  case (Cons r rs)
  from Cons.prems(1) obtain d ds' where d: "format_one opts r = Inr d"
    and ds': "format_loop opts rs = Inr ds'" and ds: "ds = d # ds'"
    by (auto split: sum.splits)
  from format_one_objs [OF d Cons.prems(2)] Cons.IH [OF ds' Cons.prems(2)] ds
  show ?case by auto
qed simp

lemma format_objs:
  assumes "format opts rs = Inr out" and "collaborators_pure opts"
  shows "input_objs out \<subseteq> (\<Union>r\<in>set rs. input_objs (item r))"
proof (cases "format_loop opts rs")
  case (Inl err)
  with assms(1) show ?thesis by (simp add: format_def)
next
  case (Inr ds)
  have hl: "input_objs (highlighter opts d) \<subseteq> input_objs d" for d
    using assms(2) by (simp add: collaborators_pure_def)
  have "input_objs out \<subseteq> (\<Union>d\<in>set ds. input_objs d)"
  proof (cases "includeMatches opts \<and> highlight_enabled opts")
    case True
    with Inr assms(1) have "out = VArr (map (highlighter opts) ds)"
      by (simp add: format_def)
    then have "input_objs out = (\<Union>d\<in>set ds. input_objs (highlighter opts d))"
      by simp
    also have "\<dots> \<subseteq> (\<Union>d\<in>set ds. input_objs d)"
      by (rule UN_mono) (simp_all add: hl)
    finally show ?thesis .
  next
    case False
    with Inr assms(1) have "out = VArr ds"
      by (auto simp: format_def)
    then show ?thesis by simp
  qed
  also note format_loop_objs [OF Inr assms(2)]
  finally show ?thesis .
qed

lemma finish_objs:
  assumes "finish opts W rs = Inr out" and "collaborators_pure opts" and "items_within S rs"
  shows "input_objs out \<subseteq> S"
proof -
  from assms(1) obtain rk where rk: "ranked opts W rs = Inr rk" and f: "format opts rk = Inr out"
    by (auto simp: finish_def split: sum.splits)
  have "input_objs (item r) \<subseteq> S" if "r \<in> set rk" for r
  proof -
    from that have "item r \<in> item ` set rk" by simp
    with ranked_items [OF rk] obtain p where "p \<in> set rs" "item r = item (snd p)"
      by auto
    with assms(3) show ?thesis by (simp add: items_within_def)
  qed
  with format_objs [OF f assms(2)] show ?thesis by blast
qed

lemma enc_entry_objs [simp]: "input_objs (enc_entry e) = {}"
  by (cases "nScore e") (simp_all add: enc_entry_def)

lemma enc_result_objs: "input_objs (enc_result r) = input_objs (item r)"
  by (cases "score r") (simp_all add: enc_result_def)

lemma raw_return_objs: "items_within S rs \<Longrightarrow> input_objs (raw_return rs) \<subseteq> S"
  by (force simp: raw_return_def enc_result_objs items_within_def)

lemma search_frame:
  "search_list opts tss fs list = Inr out \<Longrightarrow> collaborators_pure opts
     \<Longrightarrow> input_objs out \<subseteq> input_objs (VArr list)"
  "search_loop opts tss fs i list st = Inr st' \<Longrightarrow> collaborators_pure opts
     \<Longrightarrow> items_within S (snd st) \<Longrightarrow> input_objs (VArr list) \<subseteq> S
     \<Longrightarrow> items_within S (snd st')"
proof (induction opts tss fs list and opts tss fs i list st arbitrary: out and st' S
         rule: search_list_search_loop.induct)
  case (1 opts tss fs list)
  show ?case
  proof (cases "first_is_string list")
    case True
    with "1.prems" have "out = raw_return (flat_loop opts tss fs 0 list [])" by simp
    moreover have "items_within (input_objs (VArr list)) (flat_loop opts tss fs 0 list [])"
      by (rule flat_loop_items) simp
    ultimately show ?thesis by (simp only: raw_return_objs)
  next
    case False
    with "1.prems" obtain W rs where
      loop: "search_loop opts tss fs 0 list (Map.empty, []) = Inr (W, rs)"
      and fin: "finish opts W rs = Inr out"
      by (auto split: sum.splits)
    from "1.IH" [OF False loop "1.prems"(2), of "input_objs (VArr list)"]
    have "items_within (input_objs (VArr list)) rs" by simp
    from finish_objs [OF fin "1.prems"(2) this] show ?thesis .
  qed
next
  case (2 opts tss fs i st)
  then show ?case by simp
next
  case (3 opts tss fs i itm rest st)
  obtain W0 rs0 where st: "st = (W0, rs0)" by (cases st)
  from "3.prems"(1) obtain W rs where
    k: "key_loop opts tss fs itm i (keys opts) st = Inr (W, rs)"
    by (auto split: sum.splits)
  from "3.prems"(4) have itm: "input_objs itm \<subseteq> S" and rest: "input_objs (VArr rest) \<subseteq> S"
    by simp_all
  from key_loop_items [OF k [unfolded st] _ itm] "3.prems"(3) st
  have rs: "items_within S rs" by simp
  note IH = "3.IH" [OF k refl]
  show ?case
  proof (cases "recursive_enabled opts")
    case False
    with "3.prems"(1) k have "search_loop opts tss fs (i + 1) rest (W, rs) = Inr st'" by simp
    from IH(4) [OF False this "3.prems"(2) _ rest] rs show ?thesis by simp
  next
    case True
    with "3.prems"(1) k have nn: "\<not> nullish itm" by (auto split: if_splits)
    show ?thesis
    proof (cases "child_list itm (recursive_key opts)")
      case None
      with "3.prems"(1) k True nn
      have "search_loop opts tss fs (i + 1) rest (W, rs) = Inr st'" by simp
      from IH(1) [OF True nn None this "3.prems"(2) _ rest] rs show ?thesis by simp
    next
      case (Some cs)
      with "3.prems"(1) k True nn obtain children where
        c: "search_list opts tss fs cs = Inr children"
        and l: "search_loop opts tss fs (i + 1) rest
                  (W, splice (recursive_key opts) i itm children rs) = Inr st'"
        by (auto split: sum.splits)
      from IH(2) [OF True nn Some c "3.prems"(2)] child_list_objs [OF Some] itm
      have "input_objs children \<subseteq> S" by auto
      from splice_items [OF rs itm this]
      have "items_within S (splice (recursive_key opts) i itm children rs)" .
      from IH(3) [OF True nn Some c l "3.prems"(2) _ rest] this show ?thesis by simp
    qed
  qed
qed

lemma below_simps [simp]:
  "below i []"
  "below i ((j, r) # rs) = (j < i \<and> below i rs)"
  "below i (rs @ qs) = (below i rs \<and> below i qs)"
  by (auto simp: below_def)

lemma below_mono: "below i rs \<Longrightarrow> i \<le> j \<Longrightarrow> below j rs"
  by (auto simp: below_def)

lemma below_map_of: "below i rs \<Longrightarrow> i \<le> j \<Longrightarrow> map_of rs j = None"
  by (induction rs) auto

subsection \<open>Indices\<close>

lemma push_output_below [simp]: "below i (push_output index e rs) = below i rs"
  by (induction rs) (auto split: if_splits)

lemma add_match_below:
  "below (Suc i) rs \<Longrightarrow> below (Suc i) (add_match i record e rs)"
  by (auto simp: add_match_def split: option.splits)

lemma analyze_below:
  "below (Suc i) rs \<Longrightarrow> below (Suc i) (analyze opts tss fs k record i v rs)"
proof (induction v arbitrary: rs)
  case (VArr vs)
  then have "below (Suc i) (fold (\<lambda>v. analyze opts tss fs k record i v) vs rs)"
    by (induction vs arbitrary: rs) auto
  then show ?case by simp
qed (auto simp: analyze_text_closed add_match_below)

lemma key_loop_below:
  "key_loop opts tss fs itm i ks (W, rs) = Inr (W', rs') \<Longrightarrow> below (Suc i) rs
     \<Longrightarrow> below (Suc i) rs'"
proof (induction ks arbitrary: W rs)
  case (Cons k ks)
  then show ?case
    by (auto simp: key_loop_step analyze_below split: if_splits option.splits)
qed simp

lemma replace_result_below [simp]:
  "below i (replace_result j r' rs) = below i rs"
  by (induction rs) (auto split: if_splits)

lemma splice_below:
  "below (Suc i) rs \<Longrightarrow> below (Suc i) (splice k i itm children rs)"
  by (auto simp: splice_def split: option.splits)

subsection \<open>The entries of the other records stay\<close>

lemma push_output_other: "j \<noteq> index \<Longrightarrow> map_of (push_output index e rs) j = map_of rs j"
  by (induction rs) auto

lemma add_match_other: "j \<noteq> index \<Longrightarrow> map_of (add_match index record e rs) j = map_of rs j"
  by (auto simp: add_match_def push_output_other map_add_def split: option.splits)

lemma analyze_other:
  "j \<noteq> index \<Longrightarrow> map_of (analyze opts tss fs k record index v rs) j = map_of rs j"
proof (induction v arbitrary: rs)
  case (VArr vs)
  then have "map_of (fold (\<lambda>v. analyze opts tss fs k record index v) vs rs) j = map_of rs j"
    by (induction vs arbitrary: rs) auto
  then show ?case by simp
qed (auto simp: analyze_text_closed add_match_other)

lemma key_loop_other:
  "key_loop opts tss fs itm i ks (W, rs) = Inr (W', rs') \<Longrightarrow> j \<noteq> i
     \<Longrightarrow> map_of rs' j = map_of rs j"
proof (induction ks arbitrary: W rs)
  case (Cons k ks)
  then show ?case
    by (auto simp: key_loop_step analyze_other split: if_splits option.splits)
qed simp

lemma replace_result_other: "j \<noteq> i \<Longrightarrow> map_of (replace_result i r' rs) j = map_of rs j"
  by (induction rs) auto

lemma splice_other: "j \<noteq> i \<Longrightarrow> map_of (splice k i itm children rs) j = map_of rs j"
  by (auto simp: splice_def replace_result_other map_add_def split: option.splits)

lemma search_loop_other:
  "search_loop opts tss fs i list (W, rs) = Inr (W', rs') \<Longrightarrow> j < i
     \<Longrightarrow> map_of rs' j = map_of rs j"
proof (induction list arbitrary: i W rs)
  case (Cons itm rest)
  then show ?case
    by (auto split: sum.splits if_splits option.splits
             dest!: key_loop_other [where j = j] simp: splice_other)
qed simp

lemma search_loop_below:
  "search_loop opts tss fs i list (W, rs) = Inr (W', rs') \<Longrightarrow> below i rs
     \<Longrightarrow> below (i + length list) rs'"
proof (induction list arbitrary: i W rs)
  case (Cons itm rest)
  from Cons.prems(1) obtain W1 rs1 where
    k: "key_loop opts tss fs itm i (keys opts) (W, rs) = Inr (W1, rs1)"
    by (auto split: sum.splits)
  from key_loop_below [OF k] Cons.prems(2) have b1: "below (Suc i) rs1"
    by (simp add: below_mono)
  from Cons.prems(1) k obtain rs2 where
    l: "search_loop opts tss fs (Suc i) rest (W1, rs2) = Inr (W', rs')"
    and "rs2 = rs1 \<or> (\<exists>children. rs2 = splice (recursive_key opts) i itm children rs1)"
    by (auto split: sum.splits if_splits option.splits)
  with b1 have "below (Suc i) rs2" by (auto simp: splice_below)
  from Cons.IH [OF l this] show ?case by simp
qed simp

subsection \<open>The entry of a record with matching children\<close>

lemma push_output_item:
  "map_of (push_output index e rs) j = Some r' \<Longrightarrow> \<exists>r. map_of rs j = Some r \<and> item r' = item r"
  by (induction rs) (auto split: if_splits)

lemma add_match_entry:
  "entry_of itm i rs \<Longrightarrow> entry_of itm i (add_match i itm e rs)"
  by (auto simp: entry_of_def add_match_def map_add_def split: option.splits
           dest!: push_output_item)

lemma analyze_entry:
  "entry_of itm i rs \<Longrightarrow> entry_of itm i (analyze opts tss fs k itm i v rs)"
proof (induction v arbitrary: rs)
  case (VArr vs)
  then have "entry_of itm i (fold (\<lambda>v. analyze opts tss fs k itm i v) vs rs)"
    by (induction vs arbitrary: rs) auto
  then show ?case by simp
qed (auto simp: analyze_text_closed add_match_entry)

lemma key_loop_entry:
  "key_loop opts tss fs itm i ks (W, rs) = Inr (W', rs') \<Longrightarrow> entry_of itm i rs
     \<Longrightarrow> entry_of itm i rs'"
proof (induction ks arbitrary: W rs)
  case (Cons k ks)
  then show ?case
    by (auto simp: key_loop_step analyze_entry split: if_splits option.splits)
qed simp

lemma replace_result_same:
  "map_of rs i = Some r \<Longrightarrow> map_of (replace_result i r' rs) i = Some r'"
  by (induction rs) (auto split: if_splits)

lemma splice_entry:
  assumes "entry_of itm i rs" and "kids \<noteq> []"
  shows "\<exists>r. map_of (splice k i itm (VArr kids) rs) i = Some r
             \<and> item r = assign itm k (VArr kids)"
proof (cases "map_of rs i")
  case None
  with assms(2) show ?thesis by (simp add: splice_def map_add_def)
next
  case (Some r)
  with assms(1) have "item r = itm" by (simp add: entry_of_def)
  with Some replace_result_same [OF Some] show ?thesis
    by (simp add: splice_def)
qed

lemma search_loop_parent:
  assumes "search_loop opts tss fs i list (W, rs) = Inr (W', rs')"
    and "below i rs" and "recursive_enabled opts" and "n < length list"
    and "child_list (list ! n) (recursive_key opts) = Some cs"
    and "search_list opts tss fs cs = Inr (VArr kids)" and "kids \<noteq> []"
  shows "\<exists>r. map_of rs' (i + n) = Some r
             \<and> item r = assign (list ! n) (recursive_key opts) (VArr kids)"
  using assms(1,2,4,5)
proof (induction list arbitrary: i W rs n)
  case Nil
  then show ?case by simp
next
  case (Cons itm rest)
  note rec = assms(3) and kids = assms(6,7)
  from Cons.prems(1) obtain W1 rs1 where
    k: "key_loop opts tss fs itm i (keys opts) (W, rs) = Inr (W1, rs1)"
    by (auto split: sum.splits)
  from key_loop_below [OF k] Cons.prems(2) have b1: "below (Suc i) rs1"
    by (simp add: below_mono)
  show ?case
  proof (cases n)
    case 0
    with Cons.prems(4) have cl: "child_list itm (recursive_key opts) = Some cs" by simp
    from Cons.prems(1) k rec have nn: "\<not> nullish itm" by (auto split: if_splits)
    from Cons.prems(1) k rec nn cl kids(1)
    have l: "search_loop opts tss fs (Suc i) rest
               (W1, splice (recursive_key opts) i itm (VArr kids) rs1) = Inr (W', rs')"
      by simp
    from below_map_of [OF Cons.prems(2), of i] have "entry_of itm i rs"
      by (simp add: entry_of_def)
    from key_loop_entry [OF k this] have "entry_of itm i rs1" .
    from splice_entry [OF this kids(2), of "recursive_key opts"] obtain r where
      "map_of (splice (recursive_key opts) i itm (VArr kids) rs1) i = Some r"
      "item r = assign itm (recursive_key opts) (VArr kids)"
      by blast
    with search_loop_other [OF l, of i] 0 show ?thesis by simp
  next
    case (Suc m)
    from Cons.prems(1) k obtain rs2 where
      l: "search_loop opts tss fs (Suc i) rest (W1, rs2) = Inr (W', rs')"
      and "rs2 = rs1 \<or> (\<exists>children. rs2 = splice (recursive_key opts) i itm children rs1)"
      by (auto split: sum.splits if_splits option.splits)
    with b1 have b2: "below (Suc i) rs2" by (auto simp: splice_below)
    from Cons.prems(3,4) Suc have "m < length rest"
      "child_list (rest ! m) (recursive_key opts) = Some cs"
      by simp_all
    from Cons.IH [OF l b2 this] Suc show ?thesis by simp
  qed
qed

lemma map_of_set_prop: "map_of (set_prop ps k v) = (map_of ps)(k \<mapsto> v)"
  by (induction ps) (auto simp: fun_eq_iff)

lemma plain_getFn_objs: "plain_getFn v k = Some x \<Longrightarrow> input_objs x \<subseteq> input_objs v"
  using get_prop_objs [of v k] by (auto simp: plain_getFn_def split: if_splits)

lemma demo_options_pure: "collaborators_pure (demo_options tbl ks)"
  using plain_getFn_objs by (auto simp: collaborators_pure_def demo_options_def)

lemma collaborators_pure_update [simp]:
  "collaborators_pure (opts\<lparr>includeScore := b\<rparr>) = collaborators_pure opts"
  "collaborators_pure (opts\<lparr>recursive_enabled := b\<rparr>) = collaborators_pure opts"
  "collaborators_pure (opts\<lparr>recursive_key := k\<rparr>) = collaborators_pure opts"
  by (simp_all add: collaborators_pure_def)

text \<open>
  Children that are records.  Let recursion be enabled and let the record at position
  \<open>n\<close> of a collection of records be an object whose array under the recursive key is
  not empty and whose search returns a non-empty list \<open>kids\<close>.  When the search on the
  collection returns, the ranked list holds a result for this record, whether one of its
  own fields matched or not, whose item is a new object with the properties of the record
  and \<open>kids\<close> under the recursive key, every other key reading as in the record.  Every
  object of the caller that occurs in the returned value is an object of the collection
  with the properties it has there: the search hands the caller's objects on as they are
  and builds what it changes as new objects.  The hypothesis on the children holds only
  when their search returns a list, which it does not when the first child is a string.
\<close>

lemma recursive_splice:
  assumes rec: "recursive_enabled opts"
    and records: "\<not> first_is_string list"
    and n: "n < length list"
    and parent: "list ! n = VObj t ps"
    and cl: "child_list (list ! n) (recursive_key opts) = Some cs"
    and prep: "prepareSearchers opts pattern = (tss, fs)"
    and kids: "search_list opts tss fs cs = Inr (VArr kids)" "kids \<noteq> []"
    and rk: "ranking opts list pattern = Inr rkd"
    and fmt: "format opts rkd = Inr out"
    and pure: "collaborators_pure opts"
  shows "search opts list pattern = Inr out
         \<and> (\<exists>r\<in>set rkd. item r = VObj None (set_prop ps (recursive_key opts) (VArr kids)))
         \<and> map_of (set_prop ps (recursive_key opts) (VArr kids))
             = (map_of ps)(recursive_key opts \<mapsto> VArr kids)
         \<and> input_objs out \<subseteq> input_objs (VArr list)"
proof -
  have s: "search opts list pattern = Inr out"
    using records rk fmt by (simp add: search_as_ranking)
  then have "search_list opts tss fs list = Inr out"
    using prep by (simp add: search_def del: search_list.simps)
  from search_frame(1) [OF this pure] have frame: "input_objs out \<subseteq> input_objs (VArr list)" .
  from rk prep obtain W rs where
    loop: "search_loop opts tss fs 0 list (Map.empty, []) = Inr (W, rs)"
    and r: "ranked opts W rs = Inr rkd"
    by (auto simp: ranking_def rank_list_def split: sum.splits)
  from search_loop_parent [OF loop _ rec n cl kids] obtain r0 where
    r0: "map_of rs n = Some r0"
      "item r0 = assign (list ! n) (recursive_key opts) (VArr kids)"
    by auto
  from r0(1) have "(n, r0) \<in> set rs" by (rule map_of_SomeD)
  then have "item r0 \<in> item ` snd ` set rs" by force
  with ranked_items [OF r] have "item r0 \<in> item ` set rkd" by simp
  then obtain r1 where "r1 \<in> set rkd" "item r1 = item r0"
    by (auto simp: image_iff)
  with r0(2) parent
  have "\<exists>r\<in>set rkd. item r = VObj None (set_prop ps (recursive_key opts) (VArr kids))"
    by (auto simp: assign_def)
  with s frame show ?thesis by (simp add: map_of_set_prop)
qed

lemma format_loop_plain:
  "\<not> id_set opts \<Longrightarrow> \<not> includeMatches opts \<Longrightarrow> \<not> includeScore opts
     \<Longrightarrow> format_loop opts rs = Inr (map item rs)"
  by (induction rs) (simp_all add: format_one_def project_item_def)

lemma format_plain:
  "\<not> id_set opts \<Longrightarrow> \<not> includeMatches opts \<Longrightarrow> \<not> includeScore opts
     \<Longrightarrow> format opts rs = Inr (VArr (map item rs))"
  by (simp add: format_def format_loop_plain)

text \<open>
  With the plain output format (no id, no matches, no scores) the returned list is the
  list of the items of the ranked results, so the new object is an element of the value
  that the search returns.
\<close>

lemma recursive_splice_returned:
  assumes "recursive_enabled opts"
    and "\<not> first_is_string list"
    and "n < length list"
    and "list ! n = VObj t ps"
    and "child_list (list ! n) (recursive_key opts) = Some cs"
    and "prepareSearchers opts pattern = (tss, fs)"
    and "search_list opts tss fs cs = Inr (VArr kids)" "kids \<noteq> []"
    and "ranking opts list pattern = Inr rkd"
    and plain: "\<not> id_set opts" "\<not> includeMatches opts" "\<not> includeScore opts"
    and "collaborators_pure opts"
  shows "\<exists>outs. search opts list pattern = Inr (VArr outs)
           \<and> VObj None (set_prop ps (recursive_key opts) (VArr kids)) \<in> set outs"
proof -
  have fmt: "format opts rkd = Inr (VArr (map item rkd))"
    using plain by (rule format_plain)
  note c = recursive_splice [OF assms(1-9) fmt assms(13)]
  from c [THEN conjunct2, THEN conjunct1] obtain r where
    "r \<in> set rkd" "item r = VObj None (set_prop ps (recursive_key opts) (VArr kids))"
    by blast
  then have "VObj None (set_prop ps (recursive_key opts) (VArr kids)) \<in> set (map item rkd)"
    by force
  with c [THEN conjunct1] show ?thesis by blast
qed

lemma recursive_splice_example:
  "search family_options family_list ''p''
     = Inr (VArr [VObj (Some 0) [(''a'', VStr ''x'')],
                  VObj None [(''a'', VStr ''zz''),
                             (''kids'', VArr [VObj (Some 2) [(''a'', VStr ''y'')]])],
                  VObj (Some 4) [(''a'', VStr ''y'')]])
   \<and> input_objs (VArr [VObj (Some 0) [(''a'', VStr ''x'')],
                  VObj None [(''a'', VStr ''zz''),
                             (''kids'', VArr [VObj (Some 2) [(''a'', VStr ''y'')]])],
                  VObj (Some 4) [(''a'', VStr ''y'')]])
       \<subseteq> input_objs (VArr family_list)"
proof -
  let ?kids = "[VObj (Some 2) [(''a'', VStr ''y'')]]"
  let ?cs = "[VObj (Some 2) [(''a'', VStr ''y'')], VObj (Some 3) [(''a'', VStr ''q'')]]"
  let ?ps = "[(''a'', VStr ''zz''), (''kids'', VArr ?cs)]"
  let ?copy = "VObj None [(''a'', VStr ''zz''), (''kids'', VArr ?kids)]"
  let ?rkd = "[\<lparr>item = VObj (Some 0) [(''a'', VStr ''x'')],
                outputs = [\<lparr>key = ''a'', eScore = 1 / 5, matchedIndices = [],
                            nScore = Some (1 / 5)\<rparr>],
                score = Some (Num (1 / 5))\<rparr>,
               \<lparr>item = ?copy, outputs = [], score = Some NaN\<rparr>,
               \<lparr>item = VObj (Some 4) [(''a'', VStr ''y'')],
                outputs = [\<lparr>key = ''a'', eScore = 0, matchedIndices = [],
                            nScore = Some 0\<rparr>],
                score = Some (Num 0)\<rparr>]"
  let ?out = "VArr [VObj (Some 0) [(''a'', VStr ''x'')], ?copy,
                    VObj (Some 4) [(''a'', VStr ''y'')]]"
  have h1: "recursive_enabled family_options"
    by (simp add: family_options_def demo_options_def)
  have h2: "\<not> first_is_string family_list" by (simp add: family_list_def)
  have h3: "1 < length family_list" by (simp add: family_list_def)
  have h4: "family_list ! 1 = VObj (Some 1) ?ps" by (simp add: family_list_def)
  have h5: "child_list (family_list ! 1) (recursive_key family_options) = Some ?cs"
    by (simp add: family_list_def family_options_def demo_options_def child_list_def)
  have h6: "prepareSearchers family_options ''p''
              = ([], table_Bitap [((''p'', ''x''), 1 / 5), ((''p'', ''y''), 0)] ''p'')"
    by (simp add: family_options_def demo_options_def prepareSearchers_def)
  have h7: "search_list family_options []
              (table_Bitap [((''p'', ''x''), 1 / 5), ((''p'', ''y''), 0)] ''p'') ?cs
            = Inr (VArr ?kids)"
    by (simp add: family_options_def eval_defs)
  have h8: "?kids \<noteq> []" by simp
  have h9: "ranking family_options family_list ''p'' = Inr ?rkd"
    by (simp add: family_options_def family_list_def eval_defs)
  have h10: "format family_options ?rkd = Inr ?out"
    by (simp add: family_options_def eval_defs)
  have h11: "collaborators_pure family_options"
    by (simp add: family_options_def demo_options_pure)
  note c = recursive_splice [OF h1 h2 h3 h4 h5 h6 h7 h8 h9 h10 h11]
  from c [THEN conjunct1] c [THEN conjunct2, THEN conjunct2, THEN conjunct2]
  show ?thesis by (rule conjI)
qed

subsection \<open>Children that are strings\<close>

text \<open>
  Claim C7, on the code.  The claim says that, with recursion enabled, a record with no
  match of its own and a matching child still appears in the results, with the results of
  the children under the recursive key of a copy of the record.  The recursion calls
  \<^verbatim>\<open>_search\<close> on the children, and \<^verbatim>\<open>_search\<close> returns early from its branch for
  strings with the object \<^verbatim>\<open>{ weights: null, results }\<close>, which has no \<^verbatim>\<open>length\<close>.
  With a pattern that matches \<^verbatim>\<open>y\<close> and nothing else: the children \<^verbatim>\<open>['y']\<close> searched
  on their own give this object, holding one match; the record
  \<^verbatim>\<open>{ a: 'zz', kids: ['y'] }\<close> is not in the results of its collection, which are
  empty; the same record with the child \<^verbatim>\<open>{ a: 'y' }\<close> is in the results, as a new
  object with the child under \<^verbatim>\<open>kids\<close>.
\<close>

theorem string_children_dropped:
  "search strings_options [VStr ''y''] ''p''
     = Inr (VObj None
              [(''weights'', VNull),
               (''results'',
                VArr [VObj None
                        [(''item'', VNum (Num 0)),
                         (''output'',
                          VArr [VObj None [(''key'', VStr ''''), (''score'', VNum (Num 0)),
                                           (''matchedIndices'', VArr [])]])]])])
   \<and> search strings_options
          [VObj (Some 0) [(''a'', VStr ''zz''), (''kids'', VArr [VStr ''y''])]] ''p''
     = Inr (VArr [])
   \<and> search strings_options
          [VObj (Some 0) [(''a'', VStr ''zz''),
                          (''kids'', VArr [VObj (Some 1) [(''a'', VStr ''y'')]])]] ''p''
     = Inr (VArr [VObj None [(''a'', VStr ''zz''),
                             (''kids'', VArr [VObj (Some 1) [(''a'', VStr ''y'')]])]])"
  by (simp add: strings_options_def eval_defs raw_return_def enc_result_def enc_entry_def
        enc_indices_def)

end
